theory Spec2Isabelle
  imports Complex_Main "HOL-Library.Sublist"
begin

section \<open>Characters and Python string primitives\<close>

text \<open>
  A Python \<open>str\<close> is modelled as a \<open>string\<close>, one \<open>char\<close> per code point; the model
  therefore ranges over texts whose code points lie below 256. The character classes are
  those of Python on that range: \<open>str.isspace\<close> (also the regex class \<open>\s\<close>) and the
  Unicode word characters of the regex class \<open>\w\<close>.
\<close>

definition newline :: char where
  "newline = CHR 0x0A"

definition dquote :: char where
  "dquote = CHR 0x22"

definition squote :: char where
  "squote = CHR 0x27"

definition backslash :: char where
  "backslash = CHR 0x5C"

definition is_space :: "char \<Rightarrow> bool" where
  "is_space c = (let n = (of_char c :: nat) in
     (9 \<le> n \<and> n \<le> 13) \<or> (28 \<le> n \<and> n \<le> 32) \<or> n = 133 \<or> n = 160)"

definition is_word :: "char \<Rightarrow> bool" where
  "is_word c = (let n = (of_char c :: nat) in
     (48 \<le> n \<and> n \<le> 57) \<or> (65 \<le> n \<and> n \<le> 90) \<or> n = 95 \<or> (97 \<le> n \<and> n \<le> 122) \<or>
     n = 170 \<or> n = 178 \<or> n = 179 \<or> n = 181 \<or> n = 185 \<or> n = 186 \<or>
     (188 \<le> n \<and> n \<le> 190) \<or> (192 \<le> n \<and> n \<le> 214) \<or> (216 \<le> n \<and> n \<le> 246) \<or> 248 \<le> n)"

definition lower :: "char \<Rightarrow> char" where
  "lower c = (let n = (of_char c :: nat) in
     if (65 \<le> n \<and> n \<le> 90) \<or> (192 \<le> n \<and> n \<le> 222 \<and> n \<noteq> 215) then char_of (n + 32) else c)"

text \<open>\<open>line.strip()\<close>: leading and trailing whitespace removed.\<close>

definition strip :: "string \<Rightarrow> string" where
  "strip s = rev (dropWhile is_space (rev (dropWhile is_space s)))"

text \<open>\<open>content.split('\n')\<close>: one more piece than there are newlines.\<close>

fun split_lines :: "string \<Rightarrow> string list" where
  "split_lines [] = [[]]"
| "split_lines (c # cs) =
    (if c = newline then [] # split_lines cs
     else (case split_lines cs of l # ls \<Rightarrow> (c # l) # ls | [] \<Rightarrow> [[c]]))"

text \<open>
  \<open>f.readlines()\<close> on the decoded text, in which the text mode of \<open>open\<close> has turned every
  line ending into a newline: every line keeps its newline, and a last line without one
  is a line of its own when it is not empty.
\<close>

fun readlines :: "string \<Rightarrow> string list" where
  "readlines [] = []"
| "readlines (c # cs) =
    (if c = newline then [c] # readlines cs
     else (case readlines cs of l # ls \<Rightarrow> (c # l) # ls | [] \<Rightarrow> [[c]]))"

text \<open>\<open>'\n'.join(lines)\<close>.\<close>

fun join_lines :: "string list \<Rightarrow> string" where
  "join_lines [] = []"
| "join_lines [l] = l"
| "join_lines (l # ls) = l @ newline # join_lines ls"

text \<open>\<open>os.path.basename\<close>: what follows the last slash.\<close>

definition basename :: "string \<Rightarrow> string" where
  "basename p = rev (takeWhile (\<lambda>c. c \<noteq> CHR ''/'') (rev p))"

section \<open>The regular expressions of the analyzer\<close>

text \<open>
  Python's \<open>re\<close> is a backtracking matcher: alternatives are tried from left to right,
  repetitions are greedy, and the first way through the pattern wins. The matcher below
  does the same in continuation-passing style: \<open>run p fl k s\<close> matches \<open>p\<close> at the state
  \<open>s\<close> and hands every end state, in Python's order of preference, to \<open>k\<close> until \<open>k\<close>
  accepts one. A state is the text before the cursor (reversed), the text from the cursor
  on, and the groups captured so far.
\<close>

datatype atom = Chr char | Dot | Space | Wordc | NoneOf string

datatype regex = Atom atom | Bol | Eol | WordB | Eps
  | Seq regex regex | Alt regex regex | Star regex | Group nat regex

record re_flags =
  ignorecase :: bool
  multiline :: bool

definition no_flags :: re_flags where
  "no_flags = \<lparr>ignorecase = False, multiline = False\<rparr>"

definition flags_M :: re_flags where
  "flags_M = \<lparr>ignorecase = False, multiline = True\<rparr>"

definition flags_IM :: re_flags where
  "flags_IM = \<lparr>ignorecase = True, multiline = True\<rparr>"

fun atom_ok :: "bool \<Rightarrow> atom \<Rightarrow> char \<Rightarrow> bool" where
  "atom_ok ic (Chr c) x = (if ic then lower x = lower c else x = c)"
| "atom_ok ic Dot x = (x \<noteq> newline)"
| "atom_ok ic Space x = is_space x"
| "atom_ok ic Wordc x = is_word x"
| "atom_ok ic (NoneOf cs) x = (if ic then lower x \<notin> lower ` set cs else x \<notin> set cs)"

type_synonym rstate = "string \<times> string \<times> (nat \<times> string) list"

text \<open>
  A repetition gives up an iteration that consumes nothing, so it runs at most once per
  remaining character: the counter starts above the length of the remaining text and is
  never exhausted (\<open>rep_fuel\<close> below).
\<close>

primrec rep :: "nat \<Rightarrow> ((rstate \<Rightarrow> rstate option) \<Rightarrow> rstate \<Rightarrow> rstate option)
    \<Rightarrow> (rstate \<Rightarrow> rstate option) \<Rightarrow> rstate \<Rightarrow> rstate option" where
  "rep 0 f k s = None"
| "rep (Suc n) f k s =
    (case f (\<lambda>s'. if length (fst (snd s')) < length (fst (snd s)) then rep n f k s' else None) s of
       Some r \<Rightarrow> Some r
     | None \<Rightarrow> k s)"

primrec run :: "regex \<Rightarrow> re_flags \<Rightarrow> (rstate \<Rightarrow> rstate option) \<Rightarrow> rstate \<Rightarrow> rstate option" where
  "run (Atom a) fl k s =
    (case fst (snd s) of
       [] \<Rightarrow> None
     | x # xs \<Rightarrow> if atom_ok (ignorecase fl) a x then k (x # fst s, xs, snd (snd s)) else None)"
| "run Bol fl k s =
    (if fst s = [] \<or> (multiline fl \<and> hd (fst s) = newline) then k s else None)"
| "run Eol fl k s =
    (if fst (snd s) = [] \<or> fst (snd s) = [newline] \<or> (multiline fl \<and> hd (fst (snd s)) = newline)
     then k s else None)"
| "run WordB fl k s =
    (if (fst s \<noteq> [] \<and> is_word (hd (fst s))) \<noteq> (fst (snd s) \<noteq> [] \<and> is_word (hd (fst (snd s))))
     then k s else None)"
| "run Eps fl k s = k s"
| "run (Seq p q) fl k s = run p fl (run q fl k) s"
| "run (Alt p q) fl k s = (case run p fl k s of Some r \<Rightarrow> Some r | None \<Rightarrow> run q fl k s)"
| "run (Star p) fl k s = rep (Suc (length (fst (snd s)))) (run p fl) k s"
| "run (Group n p) fl k s =
    run p fl (\<lambda>s'. k (fst s', fst (snd s'),
        (n, take (length (fst (snd s)) - length (fst (snd s'))) (fst (snd s))) # snd (snd s'))) s"

definition Plus :: "regex \<Rightarrow> regex" where
  "Plus p = Seq p (Star p)"

definition Opt :: "regex \<Rightarrow> regex" where
  "Opt p = Alt p Eps"

primrec Lits :: "string \<Rightarrow> regex" where
  "Lits [] = Eps"
| "Lits (c # cs) = Seq (Atom (Chr c)) (Lits cs)"

primrec Seqs :: "regex list \<Rightarrow> regex" where
  "Seqs [] = Eps"
| "Seqs (p # ps) = Seq p (Seqs ps)"

primrec Alts :: "regex list \<Rightarrow> regex" where
  "Alts [] = Eps"
| "Alts (p # ps) = (if ps = [] then p else Alt p (Alts ps))"

definition match_at :: "re_flags \<Rightarrow> regex \<Rightarrow> string \<Rightarrow> string \<Rightarrow> rstate option" where
  "match_at fl p b r = run p fl Some (b, r, [])"

record re_match =
  m_start :: nat
  m_end :: nat
  m_groups :: "(nat \<times> string) list"

definition group :: "re_match \<Rightarrow> nat \<Rightarrow> string option" where
  "group m n = map_of (m_groups m) n"

definition mk_match :: "string \<Rightarrow> rstate \<Rightarrow> re_match" where
  "mk_match b s = \<lparr>m_start = length b, m_end = length (fst s), m_groups = snd (snd s)\<rparr>"

text \<open>\<open>re.match\<close>: at the start of the text only.\<close>

definition re_match :: "re_flags \<Rightarrow> regex \<Rightarrow> string \<Rightarrow> re_match option" where
  "re_match fl p s = map_option (mk_match []) (match_at fl p [] s)"

text \<open>\<open>re.search\<close>: the leftmost position at which the pattern matches.\<close>

primrec search_from :: "re_flags \<Rightarrow> regex \<Rightarrow> string \<Rightarrow> string \<Rightarrow> re_match option" where
  "search_from fl p b [] = map_option (mk_match b) (match_at fl p b [])"
| "search_from fl p b (x # xs) =
    (case match_at fl p b (x # xs) of
       Some s \<Rightarrow> Some (mk_match b s)
     | None \<Rightarrow> search_from fl p (x # b) xs)"

definition re_search :: "re_flags \<Rightarrow> regex \<Rightarrow> string \<Rightarrow> re_match option" where
  "re_search fl p s = search_from fl p [] s"

text \<open>
  \<open>re.sub\<close> and \<open>re.findall\<close> walk the text from left to right over the matches that do
  not overlap. No pattern of the analyzer matches the empty text, so Python's rules for
  empty matches never apply; the scan steps over one character after an empty match.
\<close>

datatype piece = Keep char | Hit string

function scan :: "re_flags \<Rightarrow> regex \<Rightarrow> string \<Rightarrow> string \<Rightarrow> piece list" where
  "scan fl p b r =
    (case match_at fl p b r of
       Some s \<Rightarrow>
         if length (fst (snd s)) < length r
         then Hit (take (length r - length (fst (snd s))) r) # scan fl p (fst s) (fst (snd s))
         else (case r of [] \<Rightarrow> [Hit []] | x # xs \<Rightarrow> Hit [] # Keep x # scan fl p (x # b) xs)
     | None \<Rightarrow> (case r of [] \<Rightarrow> [] | x # xs \<Rightarrow> Keep x # scan fl p (x # b) xs))"
  by pat_completeness auto
termination
  by (relation "measure (\<lambda>(fl, p, b, r). length r)") auto

declare scan.simps [simp del]

definition re_sub :: "re_flags \<Rightarrow> regex \<Rightarrow> string \<Rightarrow> string \<Rightarrow> string" where
  "re_sub fl p repl s =
    concat (map (\<lambda>x. case x of Keep c \<Rightarrow> [c] | Hit h \<Rightarrow> repl) (scan fl p [] s))"

definition re_findall :: "re_flags \<Rightarrow> regex \<Rightarrow> string \<Rightarrow> string list" where
  "re_findall fl p s = concat (map (\<lambda>x. case x of Keep c \<Rightarrow> [] | Hit h \<Rightarrow> [h]) (scan fl p [] s))"

subsection \<open>The pattern tables of \<open>CodeComplexityAnalyzer.__init__\<close>\<close>

definition control_structures :: "regex list" where
  "control_structures =
    [Seqs [WordB, Lits ''if'', Star (Atom Space), Atom (Chr CHR ''('')],
     Seqs [WordB, Lits ''else'', Plus (Atom Space), Lits ''if'', Star (Atom Space), Atom (Chr CHR ''('')],
     Seqs [WordB, Lits ''while'', Star (Atom Space), Atom (Chr CHR ''('')],
     Seqs [WordB, Lits ''for'', Star (Atom Space), Atom (Chr CHR ''('')],
     Seqs [WordB, Lits ''do'', Star (Atom Space), Atom (Chr CHR ''{'')],
     Seqs [WordB, Lits ''switch'', Star (Atom Space), Atom (Chr CHR ''('')],
     Seqs [WordB, Lits ''case'', Plus (Atom Space)],
     Seqs [WordB, Lits ''catch'', Star (Atom Space), Atom (Chr CHR ''('')],
     Seqs [Atom (Chr CHR ''?''), Star (Atom Space), Star (Atom Dot), Star (Atom Space),
           Atom (Chr CHR '':'')]]"

definition function_pattern :: regex where
  "function_pattern =
    Seqs [Bol, Star (Atom Space),
      Star (Seq (Alts [Lits ''inline'', Lits ''static'', Lits ''virtual'', Lits ''explicit'',
                       Lits ''const''])
                (Plus (Atom Space))),
      Plus (Seqs [Plus (Atom Wordc),
                  Opt (Alt (Seq (Star (Atom Space)) (Atom (Chr CHR ''*'')))
                           (Seq (Star (Atom Space)) (Atom (Chr CHR ''&'')))),
                  Opt (Seq (Star (Atom Space)) (Lits ''const'')),
                  Plus (Atom Space)]),
      Group 1 (Plus (Atom Wordc)),
      Star (Atom Space), Atom (Chr CHR ''(''), Star (Atom (NoneOf '';'')), Atom (Chr CHR '')''),
      Star (Atom Space),
      Opt (Seq (Lits ''const'') (Star (Atom Space))),
      Opt (Seq (Lits ''override'') (Star (Atom Space))),
      Opt (Seq (Lits ''final'') (Star (Atom Space))),
      Star (Atom Space), Atom (Chr CHR ''{'')]"

definition single_comment :: regex where
  "single_comment = Seqs [Lits ''//'', Star (Atom Dot), Eol]"

definition multi_comment_start :: regex where
  "multi_comment_start = Lits ''/*''"

definition multi_comment_end :: regex where
  "multi_comment_end = Lits ''*/''"

text \<open>The two literal patterns of \<open>remove_comments_and_strings\<close>.\<close>

definition string_literal :: "char \<Rightarrow> regex" where
  "string_literal q =
    Seqs [Atom (Chr q),
          Star (Alt (Atom (NoneOf [q, backslash])) (Seq (Atom (Chr backslash)) (Atom Dot))),
          Atom (Chr q)]"

text \<open>The pattern of \<open>count_lines\<close> for a line that is one block comment.\<close>

definition comment_only_line :: regex where
  "comment_only_line =
    Seqs [Bol, Star (Atom Space), Lits ''/*'', Star (Atom Dot), Lits ''*/'', Star (Atom Space), Eol]"

subsection \<open>Searching for a literal\<close>

text \<open>
  On a pattern that is a plain sequence of characters the matcher finds the first
  occurrence of that sequence, as \<open>str.find\<close> does.
\<close>

fun str_find :: "string \<Rightarrow> string \<Rightarrow> nat option" where
  "str_find cs [] = (if cs = [] then Some 0 else None)"
| "str_find cs (x # xs) = (if prefix cs (x # xs) then Some 0 else map_option Suc (str_find cs xs))"

lemma rep_fuel:
  "length (fst (snd s)) < n \<Longrightarrow> rep n f k s = rep (Suc (length (fst (snd s)))) f k s"
proof (induction n arbitrary: s rule: less_induct)
  case (less n)
  then obtain m where n: "n = Suc m" and m: "length (fst (snd s)) \<le> m"
    by (cases n) auto
  have "(\<lambda>s'. if length (fst (snd s')) < length (fst (snd s)) then rep m f k s' else None) =
        (\<lambda>s'. if length (fst (snd s')) < length (fst (snd s))
              then rep (length (fst (snd s))) f k s' else None)"
  proof (rule ext)
    fix s' :: rstate
    show "(if length (fst (snd s')) < length (fst (snd s)) then rep m f k s' else None) =
          (if length (fst (snd s')) < length (fst (snd s))
           then rep (length (fst (snd s))) f k s' else None)"
    proof (cases "length (fst (snd s')) < length (fst (snd s))")
      case True
      with m have a: "rep m f k s' = rep (Suc (length (fst (snd s')))) f k s'"
        using less.IH [of m s'] n by simp
      from True less.prems
      have "rep (length (fst (snd s))) f k s' = rep (Suc (length (fst (snd s')))) f k s'"
        using less.IH [of "length (fst (snd s))" s'] by simp
      with a True show ?thesis by simp
    next
      case False
      then show ?thesis by simp
    qed
  qed
  then show ?case by (simp add: n)
qed

lemma run_Seq_cont: "run (Seq p q) fl k = run p fl (run q fl k)"
  by (rule ext) simp

lemma run_Lits_nocase:
  assumes "\<not> ignorecase fl"
  shows "run (Lits cs) fl k (b, r, g) =
     (if prefix cs r then k (rev cs @ b, drop (length cs) r, g) else None)"
proof (induction cs arbitrary: b r)
  case Nil
  then show ?case by simp
next
  case step: (Cons c cs)
  show ?case
    by (cases r) (simp_all add: step.IH assms)
qed

lemma match_at_Lits:
  "match_at no_flags (Lits cs) b r =
     (if prefix cs r then Some (rev cs @ b, drop (length cs) r, []) else None)"
  by (simp add: match_at_def run_Lits_nocase no_flags_def)

lemma search_from_Lits:
  "search_from no_flags (Lits cs) b r =
     map_option (\<lambda>i. \<lparr>m_start = length b + i, m_end = length b + i + length cs, m_groups = []\<rparr>)
       (str_find cs r)"
proof (induction r arbitrary: b)
  case Nil
  then show ?case by (simp add: match_at_Lits mk_match_def)
next
  case (Cons x xs)
  then show ?case
    by (simp add: match_at_Lits mk_match_def option.map_comp comp_def)
qed

lemma re_search_Lits:
  "re_search no_flags (Lits cs) s =
     map_option (\<lambda>i. \<lparr>m_start = i, m_end = i + length cs, m_groups = []\<rparr>) (str_find cs s)"
  by (simp add: re_search_def search_from_Lits)

lemma str_find_None: "str_find cs r = None \<longleftrightarrow> \<not> sublist cs r"
  by (induction r) (auto simp: sublist_Cons_right)

lemma str_find_Some:
  "str_find cs r = Some i \<Longrightarrow> i + length cs \<le> length r \<and> prefix cs (drop i r)"
proof (induction r arbitrary: i)
  case Nil
  then show ?case by (auto split: if_splits)
next
  case (Cons x xs)
  then show ?case by (auto split: if_splits dest: prefix_length_le)
qed

lemma str_find_first:
  "str_find cs r = Some i \<Longrightarrow> cs \<noteq> [] \<Longrightarrow> \<not> sublist cs (take (i + length cs - 1) r)"
proof (induction r arbitrary: i)
  case Nil
  then show ?case by (auto split: if_splits)
next
  case (Cons x xs)
  show ?case
  proof (cases "prefix cs (x # xs)")
    case True
    with Cons.prems have "i = 0" by simp
    moreover have "\<not> sublist cs (take (length cs - 1) (x # xs))"
      using Cons.prems(2) by (cases cs) (auto dest!: sublist_length_le)
    ultimately show ?thesis by simp
  next
    case False
    with Cons.prems obtain j where j: "str_find cs xs = Some j" "i = Suc j" by auto
    from Cons.IH [OF j(1) Cons.prems(2)] have ih: "\<not> sublist cs (take (j + length cs - 1) xs)" .
    have "\<not> prefix cs (take (Suc j + length cs - 1) (x # xs))"
      using False by (meson prefix_order.trans take_is_prefix)
    then show ?thesis using ih j(2) Cons.prems(2)
      by (cases cs) (auto simp: sublist_Cons_right)
  qed
qed

lemma comment_end_bounds:
  assumes "re_search no_flags multi_comment_end s = Some em"
  shows "2 \<le> m_end em \<and> m_end em \<le> length s"
proof -
  from assms have "map_option (\<lambda>i. \<lparr>m_start = i, m_end = i + length ''*/'', m_groups = []\<rparr>)
      (str_find ''*/'' s) = Some em"
    unfolding multi_comment_end_def re_search_Lits .
  then obtain i where i: "str_find ''*/'' s = Some i" and em: "m_end em = i + 2"
    by auto
  from str_find_Some [OF i] em show ?thesis by simp
qed

section \<open>Lexical Stripper: \<open>remove_comments_and_strings\<close>\<close>

text \<open>The two substitutions that replace the string and character literals.\<close>

definition remove_strings :: "string \<Rightarrow> string" where
  "remove_strings content =
    re_sub no_flags (string_literal squote) [squote, squote]
      (re_sub no_flags (string_literal dquote) [dquote, dquote] content)"

text \<open>The substitution that removes the \<open>//\<close> comments.\<close>

definition remove_line_comments :: "string \<Rightarrow> string" where
  "remove_line_comments content = re_sub flags_M single_comment [] content"

text \<open>
  One round of the loop over the block comments. It looks for the first \<open>/*\<close>, then for
  the first \<open>*/\<close> in \<open>content[start:]\<close>; \<open>Inl\<close> is a \<open>break\<close> with the text the loop
  returns, \<open>Inr\<close> the text of the next round.
\<close>

definition block_comment_round :: "string \<Rightarrow> string + string" where
  "block_comment_round content =
    (case re_search no_flags multi_comment_start content of
       None \<Rightarrow> Inl content
     | Some m \<Rightarrow>
        (case re_search no_flags multi_comment_end (drop (m_start m) content) of
           Some end_match \<Rightarrow>
             Inr (take (m_start m) content @ drop (m_start m + m_end end_match) content)
         | None \<Rightarrow> Inl (take (m_start m) content)))"

lemma block_comment_round_shorter:
  assumes "block_comment_round content = Inr content'"
  shows "length content' < length content"
proof (cases "re_search no_flags multi_comment_start content")
  case None
  with assms show ?thesis by (simp add: block_comment_round_def)
next
  case (Some m)
  show ?thesis
  proof (cases "re_search no_flags multi_comment_end (drop (m_start m) content)")
    case None
    with Some assms show ?thesis by (simp add: block_comment_round_def)
  next
    case (Some end_match)
    from comment_end_bounds [OF this] this \<open>re_search no_flags multi_comment_start content = Some m\<close>
      assms
    show ?thesis by (auto simp: block_comment_round_def)
  qed
qed

function remove_block_comments :: "string \<Rightarrow> string" where
  "remove_block_comments content =
    (case block_comment_round content of
       Inl result \<Rightarrow> result
     | Inr content' \<Rightarrow> remove_block_comments content')"
  by pat_completeness auto
termination
  by (relation "measure length") (auto dest: block_comment_round_shorter)

declare remove_block_comments.simps [simp del]

text \<open>
  The loop cut off after \<open>n\<close> rounds: \<open>None\<close> when it has not reached its \<open>break\<close> by
  then.
\<close>

primrec block_comment_rounds :: "nat \<Rightarrow> string \<Rightarrow> string option" where
  "block_comment_rounds 0 content = None"
| "block_comment_rounds (Suc n) content =
    (case block_comment_round content of
       Inl result \<Rightarrow> Some result
     | Inr content' \<Rightarrow> block_comment_rounds n content')"

text \<open>
  The text at the start of round \<open>n + 1\<close>, when each of the \<open>n\<close> rounds before it has cut
  out a block comment.
\<close>

primrec content_after_rounds :: "nat \<Rightarrow> string \<Rightarrow> string option" where
  "content_after_rounds 0 content = Some content"
| "content_after_rounds (Suc n) content =
    (case block_comment_round content of
       Inl result \<Rightarrow> None
     | Inr content' \<Rightarrow> content_after_rounds n content')"

definition remove_comments_and_strings :: "string \<Rightarrow> string" where
  "remove_comments_and_strings content =
    remove_block_comments (remove_line_comments (remove_strings content))"

section \<open>Line Classifier: \<open>count_lines\<close>\<close>

text \<open>
  The file system is a map from paths to the decoded text of the file; \<open>None\<close> stands for
  an \<open>open\<close> or a \<open>read\<close> that raises. The file system does not change during the
  analysis: \<open>analyze_file\<close> and \<open>count_lines\<close>, which opens the file again, read the same
  text.
\<close>

type_synonym filesystem = "string \<Rightarrow> string option"

record line_state =
  loc :: int
  comments :: int
  blank :: int
  in_multiline_comment :: bool

definition line_state0 :: line_state where
  "line_state0 = \<lparr>loc = 0, comments = 0, blank = 0, in_multiline_comment = False\<rparr>"

text \<open>One round of the loop over the lines.\<close>

definition classify_line :: "line_state \<Rightarrow> string \<Rightarrow> line_state" where
  "classify_line st raw =
    (let line = strip raw in
     if line = [] then st\<lparr>blank := blank st + 1\<rparr>
     else if sublist ''/*'' line \<and> sublist ''*/'' line then
       (if re_match no_flags comment_only_line line = None
        then st\<lparr>loc := loc st + 1\<rparr>
        else st\<lparr>comments := comments st + 1\<rparr>)
     else if sublist ''/*'' line then
       st\<lparr>in_multiline_comment := True, comments := comments st + 1\<rparr>
     else if sublist ''*/'' line then
       st\<lparr>in_multiline_comment := False, comments := comments st + 1\<rparr>
     else if in_multiline_comment st then st\<lparr>comments := comments st + 1\<rparr>
     else if prefix ''//'' line then st\<lparr>comments := comments st + 1\<rparr>
     else st\<lparr>loc := loc st + 1\<rparr>)"

definition count_lines :: "filesystem \<Rightarrow> string \<Rightarrow> int \<times> int \<times> int" where
  "count_lines fs filepath =
    (case fs filepath of
       None \<Rightarrow> (0, 0, 0)
     | Some content \<Rightarrow>
        (let st = foldl classify_line line_state0 (readlines content)
         in (loc st, comments st, blank st)))"

section \<open>Complexity Counter, Function Extractor, Nesting Analyzer\<close>

definition calculate_cyclomatic_complexity :: "string \<Rightarrow> int" where
  "calculate_cyclomatic_complexity content =
    foldl (\<lambda>complexity pattern.
        complexity + int (length (re_findall flags_IM pattern (remove_comments_and_strings content))))
      1 control_structures"

definition count_char :: "char \<Rightarrow> string \<Rightarrow> int" where
  "count_char c s = int (length (filter (\<lambda>x. x = c) s))"

record ff_state =
  current_function :: "string option"
  brace_count :: int
  function_content :: "string list"
  found_functions :: "(string \<times> int \<times> int) list"

definition ff_state0 :: ff_state where
  "ff_state0 = \<lparr>current_function = None, brace_count = 0, function_content = [], found_functions = []\<rparr>"

text \<open>
  One round of the loop of \<open>find_functions\<close>. A header line seen while no function is
  open opens one and goes to the next line (the \<open>continue\<close>); the end of a function is
  looked for on the lines after it only.
\<close>

definition find_functions_step :: "ff_state \<Rightarrow> string \<Rightarrow> ff_state" where
  "find_functions_step st line =
    (case (re_search no_flags function_pattern line, current_function st) of
       (Some func_match, None) \<Rightarrow>
         st\<lparr>current_function := group func_match 1,
            function_content := [line],
            brace_count := count_char CHR ''{'' line - count_char CHR ''}'' line\<rparr>
     | (_, Some name) \<Rightarrow>
         (let fc = function_content st @ [line];
              bc = brace_count st + (count_char CHR ''{'' line - count_char CHR ''}'' line)
          in if bc \<le> 0
             then st\<lparr>found_functions := found_functions st @
                         [(name, calculate_cyclomatic_complexity (join_lines fc), int (length fc))],
                     current_function := None, function_content := [], brace_count := 0\<rparr>
             else st\<lparr>function_content := fc, brace_count := bc\<rparr>)
     | (None, None) \<Rightarrow> st)"

definition find_functions :: "string \<Rightarrow> (string \<times> int \<times> int) list" where
  "find_functions content =
    found_functions (foldl find_functions_step ff_state0
                 (split_lines (remove_comments_and_strings content)))"

definition nesting_step :: "int \<times> int \<Rightarrow> char \<Rightarrow> int \<times> int" where
  "nesting_step md c =
    (case md of (max_depth, current_depth) \<Rightarrow>
       if c = CHR ''{'' then (max max_depth (current_depth + 1), current_depth + 1)
       else if c = CHR ''}'' then (max_depth, max 0 (current_depth - 1))
       else (max_depth, current_depth))"

definition calculate_nesting_depth :: "string \<Rightarrow> int" where
  "calculate_nesting_depth content =
    fst (foldl nesting_step (0, 0) (remove_comments_and_strings content))"

section \<open>File and project aggregation\<close>

record FileMetrics =
  filename :: string
  lines_of_code :: int
  lines_of_comments :: int
  blank_lines :: int
  cyclomatic_complexity :: int
  functions_count :: int
  max_function_complexity :: int
  average_function_complexity :: rat
  nested_depth :: int

record ProjectMetrics =
  total_files :: int
  total_loc :: int
  total_comments :: int
  total_blank_lines :: int
  average_complexity :: rat
  max_complexity :: int
  total_functions :: int
  files_metrics :: "FileMetrics list"

text \<open>\<open>statistics.mean\<close>, which the analyzer calls on lists that are not empty.\<close>

definition mean :: "int list \<Rightarrow> rat" where
  "mean xs = of_int (sum_list xs) / of_int (int (length xs))"

text \<open>
  \<open>round(x, 2)\<close> works on floating-point numbers; it is a parameter \<open>round2\<close> of the
  model, applied to the exact mean.
\<close>

definition analyze_file :: "(rat \<Rightarrow> rat) \<Rightarrow> filesystem \<Rightarrow> string \<Rightarrow> FileMetrics" where
  "analyze_file round2 fs filepath =
    (case fs filepath of
       None \<Rightarrow>
         \<lparr>filename = basename filepath,
          lines_of_code = 0, lines_of_comments = 0, blank_lines = 0,
          cyclomatic_complexity = 0, functions_count = 0,
          max_function_complexity = 0, average_function_complexity = 0,
          nested_depth = 0\<rparr>
     | Some content \<Rightarrow>
         (case count_lines fs filepath of (n_loc, n_comments, n_blank) \<Rightarrow>
            let file_complexity = calculate_cyclomatic_complexity content;
                functions = find_functions content;
                nesting_depth = calculate_nesting_depth content;
                function_complexities = map (\<lambda>f. fst (snd f)) functions;
                max_func_complexity =
                  (if functions \<noteq> [] then Max (set function_complexities) else 0);
                avg_func_complexity =
                  (if functions \<noteq> [] then mean function_complexities else 0)
            in \<lparr>filename = basename filepath,
                lines_of_code = n_loc, lines_of_comments = n_comments, blank_lines = n_blank,
                cyclomatic_complexity = file_complexity,
                functions_count = int (length functions),
                max_function_complexity = max_func_complexity,
                average_function_complexity = round2 avg_func_complexity,
                nested_depth = nesting_depth\<rparr>))"

text \<open>
  The list comprehension of \<open>analyze_project\<close> that selects the complexities entering the
  average and the maximum.
\<close>

definition complexities :: "FileMetrics list \<Rightarrow> int list" where
  "complexities fms = map cyclomatic_complexity (filter (\<lambda>fm. cyclomatic_complexity fm > 0) fms)"

text \<open>
  \<open>analyze_project\<close> after the discovery of the files: \<open>files_to_analyze\<close> is the list of
  paths that the directory walk has produced.
\<close>

definition analyze_project :: "(rat \<Rightarrow> rat) \<Rightarrow> filesystem \<Rightarrow> string list \<Rightarrow> ProjectMetrics" where
  "analyze_project round2 fs files_to_analyze =
    (if files_to_analyze = [] then
       \<lparr>total_files = 0, total_loc = 0, total_comments = 0, total_blank_lines = 0,
        average_complexity = 0, max_complexity = 0, total_functions = 0, files_metrics = []\<rparr>
     else
       let fms = map (analyze_file round2 fs) files_to_analyze;
           cs = complexities fms;
           avg_complexity = (if cs \<noteq> [] then mean cs else 0);
           max_c = (if cs \<noteq> [] then Max (set cs) else 0)
       in \<lparr>total_files = int (length fms),
           total_loc = sum_list (map lines_of_code fms),
           total_comments = sum_list (map lines_of_comments fms),
           total_blank_lines = sum_list (map blank_lines fms),
           average_complexity = round2 avg_complexity,
           max_complexity = max_c,
           total_functions = sum_list (map functions_count fms),
           files_metrics = fms\<rparr>)"

section \<open>What the Lexical Stripper leaves\<close>

subsection \<open>The pass over the line comments\<close>

text \<open>
  At a \<open>//\<close> the pattern of the line comments matches up to the end of the line, the
  newline left out, and nowhere else. So the substitution computes the function
  \<open>cut_line_comments\<close>.
\<close>

lemma rep_Dot_to_eol:
  assumes "length r < n"
  shows "rep n (run (Atom Dot) flags_M) (run (Seq Eol Eps) flags_M Some) (b, r, g) =
     Some (rev (takeWhile (\<lambda>c. c \<noteq> newline) r) @ b, dropWhile (\<lambda>c. c \<noteq> newline) r, g)"
  using assms
proof (induction r arbitrary: n b)
  case Nil
  then obtain n' where "n = Suc n'" by (cases n) auto
  then show ?case by simp
next
  case (Cons x xs)
  then obtain n' where n: "n = Suc n'" and l: "length xs < n'" by (cases n) auto
  show ?case
  proof (cases "x = newline")
    case True
    then show ?thesis by (simp add: n flags_M_def)
  next
    case False
    then show ?thesis using Cons.IH [OF l, of "x # b"] by (simp add: n)
  qed
qed

lemma match_at_single_comment:
  "match_at flags_M single_comment b r =
     (if prefix ''//'' r
      then Some (rev (takeWhile (\<lambda>c. c \<noteq> newline) (drop 2 r)) @ ''//'' @ b,
                 dropWhile (\<lambda>c. c \<noteq> newline) (drop 2 r), [])
      else None)"
proof -
  have ic: "\<not> ignorecase flags_M" by (simp add: flags_M_def)
  have star: "run (Star (Atom Dot)) flags_M (run (Seq Eol Eps) flags_M Some) (b', r', [])
      = Some (rev (takeWhile (\<lambda>c. c \<noteq> newline) r') @ b', dropWhile (\<lambda>c. c \<noteq> newline) r', [])"
    for b' r'
  proof -
    have "run (Star (Atom Dot)) flags_M (run (Seq Eol Eps) flags_M Some) (b', r', [])
      = rep (Suc (length r')) (run (Atom Dot) flags_M) (run (Seq Eol Eps) flags_M Some) (b', r', [])"
      by (simp only: run.simps fst_conv snd_conv)
    also have "\<dots> = Some (rev (takeWhile (\<lambda>c. c \<noteq> newline) r') @ b',
        dropWhile (\<lambda>c. c \<noteq> newline) r', [])"
      by (rule rep_Dot_to_eol) simp
    finally show ?thesis .
  qed
  have "match_at flags_M single_comment b r =
      run (Lits ''//'') flags_M (run (Star (Atom Dot)) flags_M (run (Seq Eol Eps) flags_M Some)) (b, r, [])"
    by (simp add: match_at_def single_comment_def run_Seq_cont del: Lits.simps)
  also have "\<dots> = (if prefix ''//'' r
      then run (Star (Atom Dot)) flags_M (run (Seq Eol Eps) flags_M Some) (rev ''//'' @ b, drop (length ''//'') r, [])
      else None)"
    by (simp only: run_Lits_nocase [OF ic])
  also have "\<dots> = (if prefix ''//'' r
      then Some (rev (takeWhile (\<lambda>c. c \<noteq> newline) (drop 2 r)) @ ''//'' @ b,
                 dropWhile (\<lambda>c. c \<noteq> newline) (drop 2 r), [])
      else None)"
    by (simp only: star) (simp add: numeral_2_eq_2)
  finally show ?thesis .
qed

function cut_line_comments :: "string \<Rightarrow> string" where
  "cut_line_comments [] = []"
| "cut_line_comments [x] = [x]"
| "cut_line_comments (x # y # ys) =
    (if x = CHR ''/'' \<and> y = CHR ''/''
     then cut_line_comments (dropWhile (\<lambda>c. c \<noteq> newline) ys)
     else x # cut_line_comments (y # ys))"
  by pat_completeness auto
termination
proof (relation "measure length")
  show "wf (measure length)" by simp
next
  fix x y :: char and ys :: string
  have "length (dropWhile (\<lambda>c. c \<noteq> newline) ys) \<le> length ys"
    by (rule length_dropWhile_le)
  then show "(dropWhile (\<lambda>c. c \<noteq> newline) ys, x # y # ys) \<in> measure length"
    by simp
next
  fix x y :: char and ys :: string
  show "(y # ys, x # y # ys) \<in> measure length" by simp
qed

lemma scan_single_comment:
  "concat (map (\<lambda>x. case x of Keep c \<Rightarrow> [c] | Hit h \<Rightarrow> []) (scan flags_M single_comment b r))
     = cut_line_comments r"
proof (induction r arbitrary: b rule: cut_line_comments.induct)
  case 1
  show ?case
    by (subst scan.simps) (simp add: match_at_single_comment)
next
  case (2 x)
  have "scan flags_M single_comment (x # b) [] = []"
    by (subst scan.simps) (simp add: match_at_single_comment)
  then show ?case
    by (subst scan.simps) (simp add: match_at_single_comment)
next
  case (3 x y ys)
  show ?case
  proof (cases "x = CHR ''/'' \<and> y = CHR ''/''")
    case True
    then have x: "x = CHR ''/''" and y: "y = CHR ''/''" by simp_all
    have "length (dropWhile (\<lambda>c. c \<noteq> newline) ys) \<le> length ys"
      by (rule length_dropWhile_le)
    then have l: "length (dropWhile (\<lambda>c. c \<noteq> newline) ys) < Suc (Suc (length ys))"
      by simp
    have m: "match_at flags_M single_comment b (x # y # ys) =
        Some (rev (takeWhile (\<lambda>c. c \<noteq> newline) ys) @ ''//'' @ b,
              dropWhile (\<lambda>c. c \<noteq> newline) ys, [])"
      by (simp add: match_at_single_comment x y)
    have "scan flags_M single_comment b (x # y # ys) =
        Hit (take (length (x # y # ys) - length (dropWhile (\<lambda>c. c \<noteq> newline) ys)) (x # y # ys)) #
        scan flags_M single_comment (rev (takeWhile (\<lambda>c. c \<noteq> newline) ys) @ ''//'' @ b)
          (dropWhile (\<lambda>c. c \<noteq> newline) ys)"
      by (subst scan.simps) (simp only: m option.case fst_conv snd_conv length_Cons l if_True)
    then show ?thesis
      using "3.IH"(1) [OF True] True by simp
  next
    case False
    then have m: "match_at flags_M single_comment b (x # y # ys) = None"
      by (auto simp: match_at_single_comment)
    have "scan flags_M single_comment b (x # y # ys) =
        Keep x # scan flags_M single_comment (x # b) (y # ys)"
      by (subst scan.simps) (simp only: m option.case list.case)
    then show ?thesis
      using "3.IH"(2) [OF False] False by auto
  qed
qed

lemma remove_line_comments_cut: "remove_line_comments s = cut_line_comments s"
  by (simp add: remove_line_comments_def re_sub_def scan_single_comment)

lemma dropWhile_not_newline_cases:
  "dropWhile (\<lambda>c. c \<noteq> newline) ys = [] \<or>
   (\<exists>zs. dropWhile (\<lambda>c. c \<noteq> newline) ys = newline # zs)"
  using hd_dropWhile [of "\<lambda>c. c \<noteq> newline" ys]
  by (cases "dropWhile (\<lambda>c. c \<noteq> newline) ys") auto

lemma cut_line_comments_newline: "\<exists>t. cut_line_comments (newline # zs) = newline # t"
  by (cases zs) (auto simp: newline_def)

lemma cut_line_comments_hd:
  assumes "cut_line_comments xs = c # t" and "c \<noteq> newline"
  shows "\<exists>t'. xs = c # t'"
proof (cases xs rule: cut_line_comments.cases)
  case 1
  with assms show ?thesis by simp
next
  case (2 x)
  with assms show ?thesis by simp
next
  case (3 x y ys)
  show ?thesis
  proof (cases "x = CHR ''/'' \<and> y = CHR ''/''")
    case True
    with 3 assms have e: "cut_line_comments (dropWhile (\<lambda>c. c \<noteq> newline) ys) = c # t"
      by simp
    from dropWhile_not_newline_cases [of ys] show ?thesis
    proof
      assume "dropWhile (\<lambda>c. c \<noteq> newline) ys = []"
      with e show ?thesis by simp
    next
      assume "\<exists>zs. dropWhile (\<lambda>c. c \<noteq> newline) ys = newline # zs"
      then obtain zs where "dropWhile (\<lambda>c. c \<noteq> newline) ys = newline # zs" ..
      with e cut_line_comments_newline [of zs] assms(2) show ?thesis by auto
    qed
  next
    case False
    with 3 assms show ?thesis by auto
  qed
qed

lemma cut_line_comments_no_marker: "\<not> sublist ''//'' (cut_line_comments s)"
proof (induction s rule: cut_line_comments.induct)
  case 1
  then show ?case by simp
next
  case (2 x)
  then show ?case by (simp add: sublist_Cons_right)
next
  case (3 x y ys)
  show ?case
  proof (cases "x = CHR ''/'' \<and> y = CHR ''/''")
    case True
    with 3 show ?thesis by simp
  next
    case False
    have "\<not> prefix ''//'' (x # cut_line_comments (y # ys))"
    proof
      assume p: "prefix ''//'' (x # cut_line_comments (y # ys))"
      then obtain t where x: "x = CHR ''/''" and c: "cut_line_comments (y # ys) = CHR ''/'' # t"
        by (cases "cut_line_comments (y # ys)") auto
      have "CHR ''/'' \<noteq> newline" by (simp add: newline_def)
      from cut_line_comments_hd [OF c this] have "y = CHR ''/''" by simp
      with x False show False by simp
    qed
    with False 3 show ?thesis by (simp add: sublist_Cons_right)
  qed
qed

lemma cut_line_comments_id:
  "\<not> sublist ''//'' s \<Longrightarrow> cut_line_comments s = s"
proof (induction s rule: cut_line_comments.induct)
  case 1
  then show ?case by simp
next
  case (2 x)
  then show ?case by simp
next
  case (3 x y ys)
  then show ?case by (auto simp: sublist_Cons_right)
qed

lemma set_cut_line_comments: "set (cut_line_comments s) \<subseteq> set s"
proof (induction s rule: cut_line_comments.induct)
  case 1
  then show ?case by simp
next
  case (2 x)
  then show ?case by simp
next
  case (3 x y ys)
  have "set (dropWhile (\<lambda>c. c \<noteq> newline) ys) \<subseteq> set ys"
    by (auto dest: set_dropWhileD)
  with 3 show ?case by auto
qed

subsection \<open>The loop over the block comments\<close>

lemma block_comment_round_find:
  "block_comment_round c =
    (case str_find ''/*'' c of
       None \<Rightarrow> Inl c
     | Some i \<Rightarrow>
        (case str_find ''*/'' (drop i c) of
           Some j \<Rightarrow> Inr (take i c @ drop (i + (j + 2)) c)
         | None \<Rightarrow> Inl (take i c)))"
  unfolding block_comment_round_def multi_comment_start_def multi_comment_end_def re_search_Lits
  by (simp split: option.splits)

lemma take_first_no_marker:
  assumes "str_find ''/*'' c = Some i"
  shows "\<not> sublist ''/*'' (take i c)"
proof
  assume "sublist ''/*'' (take i c)"
  moreover have "take (i + 1) c = take i c @ take 1 (drop i c)"
    by (rule take_add)
  then have "take (i + length ''/*'' - 1) c = take i c @ take 1 (drop i c)"
    by simp
  then have "sublist (take i c) (take (i + length ''/*'' - 1) c)"
    by simp
  ultimately have "sublist ''/*'' (take (i + length ''/*'' - 1) c)"
    by (rule sublist_order.order.trans)
  with str_find_first [OF assms] show False by simp
qed

lemma remove_block_comments_no_marker: "\<not> sublist ''/*'' (remove_block_comments c)"
proof (induction c rule: remove_block_comments.induct)
  case (1 content)
  show ?case
  proof (cases "block_comment_round content")
    case (Inl result)
    then have "\<not> sublist ''/*'' result"
      by (auto simp: block_comment_round_find str_find_None take_first_no_marker
               split: option.splits)
    with Inl show ?thesis by (simp add: remove_block_comments.simps [of content])
  next
    case (Inr content')
    with 1 show ?thesis by (simp add: remove_block_comments.simps [of content])
  qed
qed

lemma remove_block_comments_id:
  assumes "\<not> sublist ''/*'' c"
  shows "remove_block_comments c = c"
proof -
  from assms have "str_find ''/*'' c = None" by (simp add: str_find_None)
  then have "block_comment_round c = Inl c" by (simp add: block_comment_round_find)
  then show ?thesis by (simp add: remove_block_comments.simps [of c])
qed

lemma no_line_marker_append:
  assumes "\<not> sublist ''//'' (p @ CHR ''/'' # q)" and "suffix z q"
  shows "\<not> sublist ''//'' (p @ z)"
proof
  assume s: "sublist ''//'' (p @ z)"
  have p: "\<not> sublist ''//'' p"
    using assms(1) by (metis sublist_append)
  from assms(2) obtain u where "q = u @ z" by (auto simp: suffix_def)
  then have "p @ CHR ''/'' # q = (p @ CHR ''/'' # u) @ z" by simp
  then have "sublist z (p @ CHR ''/'' # q)" by (metis sublist_append_leftI)
  then have z: "\<not> sublist ''//'' z"
    using assms(1) sublist_order.order.trans by blast
  from s p z obtain xs1 xs2 where x: "''//'' = xs1 @ xs2" "suffix xs1 p" "prefix xs2 z"
    by (auto simp: sublist_append)
  from x(1) have "xs1 = [] \<or> xs1 = ''/'' \<or> xs1 = ''//''"
    by (cases xs1; cases "tl xs1") auto
  then show False
  proof (elim disjE)
    assume "xs1 = []"
    with x have "prefix ''//'' z" by simp
    with z show False by auto
  next
    assume "xs1 = ''//''"
    with x have "suffix ''//'' p" by simp
    with p show False by auto
  next
    assume a: "xs1 = ''/''"
    with x(2) obtain p' where "p = p' @ ''/''" by (auto simp: suffix_def)
    then have "p @ CHR ''/'' # q = p' @ ''//'' @ q" by simp
    then have "sublist ''//'' (p @ CHR ''/'' # q)" by (metis sublist_appendI)
    with assms(1) show False by simp
  qed
qed

lemma block_comment_round_no_line_marker:
  assumes "\<not> sublist ''//'' c"
  shows "case block_comment_round c of Inl r \<Rightarrow> \<not> sublist ''//'' r | Inr c' \<Rightarrow> \<not> sublist ''//'' c'"
proof (cases "str_find ''/*'' c")
  case None
  with assms show ?thesis by (simp add: block_comment_round_find)
next
  case (Some i)
  from str_find_Some [OF Some] obtain q where q: "drop i c = CHR ''/'' # q"
    by (auto simp: prefix_def)
  then have c: "c = take i c @ CHR ''/'' # q"
    by (metis append_take_drop_id)
  have t: "\<not> sublist ''//'' (take i c)"
    using assms by (meson sublist_order.order.trans sublist_take)
  show ?thesis
  proof (cases "str_find ''*/'' (drop i c)")
    case None
    with Some t show ?thesis by (simp add: block_comment_round_find)
  next
    case (Some j)
    have "drop (i + (j + 2)) c = drop (j + 1) q"
      using q by (metis Suc_eq_plus1 add_2_eq_Suc' drop_Suc_Cons drop_drop add.commute)
    then have "suffix (drop (i + (j + 2)) c) q"
      by (simp add: suffix_drop)
    from no_line_marker_append [OF _ this, of "take i c"] c assms
    have "\<not> sublist ''//'' (take i c @ drop (i + (j + 2)) c)" by simp
    with Some \<open>str_find ''/*'' c = Some i\<close> show ?thesis
      by (simp add: block_comment_round_find)
  qed
qed

lemma remove_block_comments_no_line_marker:
  "\<not> sublist ''//'' c \<Longrightarrow> \<not> sublist ''//'' (remove_block_comments c)"
proof (induction c rule: remove_block_comments.induct)
  case (1 content)
  from block_comment_round_no_line_marker [OF "1.prems"] "1.IH"
  show ?case
    by (cases "block_comment_round content")
       (simp_all add: remove_block_comments.simps [of content])
qed

lemma set_block_comment_round:
  "case block_comment_round c of Inl r \<Rightarrow> set r \<subseteq> set c | Inr c' \<Rightarrow> set c' \<subseteq> set c"
  by (auto simp: block_comment_round_find split: option.splits dest: in_set_takeD in_set_dropD)

lemma set_remove_block_comments: "set (remove_block_comments c) \<subseteq> set c"
proof (induction c rule: remove_block_comments.induct)
  case (1 content)
  from set_block_comment_round [of content] "1.IH"
  show ?case
    by (cases "block_comment_round content")
       (auto simp: remove_block_comments.simps [of content])
qed

lemma block_comment_rounds_enough:
  "length c < n \<Longrightarrow> block_comment_rounds n c = Some (remove_block_comments c)"
proof (induction n arbitrary: c)
  case 0
  then show ?case by simp
next
  case (Suc n)
  show ?case
  proof (cases "block_comment_round c")
    case (Inl result)
    then show ?thesis by (simp add: remove_block_comments.simps [of c])
  next
    case (Inr c')
    from block_comment_round_shorter [OF Inr] Suc.prems have "length c' < n" by simp
    from Suc.IH [OF this] Inr show ?thesis
      by (simp add: remove_block_comments.simps [of c])
  qed
qed

text \<open>
  Claim C10. The loop that removes the block comments terminates on every text: a round
  either leaves the loop or hands a strictly shorter text to the next round, so that the
  loop has returned after at most one round per character and one more. The text it
  returns, and so the text the Lexical Stripper returns, contains no opening marker \<open>/*\<close>.
\<close>

theorem block_comment_loop_terminates:
  "(case block_comment_round c of Inl result \<Rightarrow> True | Inr c' \<Rightarrow> length c' < length c)
   \<and> block_comment_rounds (Suc (length c)) c = Some (remove_block_comments c)
   \<and> \<not> sublist ''/*'' (remove_block_comments c)
   \<and> \<not> sublist ''/*'' (remove_comments_and_strings t)"
proof -
  have a: "(case block_comment_round c of Inl result \<Rightarrow> True | Inr c' \<Rightarrow> length c' < length c)"
    by (cases "block_comment_round c") (simp_all add: block_comment_round_shorter)
  have b: "block_comment_rounds (Suc (length c)) c = Some (remove_block_comments c)"
    by (rule block_comment_rounds_enough) simp
  have d: "\<not> sublist ''/*'' (remove_comments_and_strings t)"
    unfolding remove_comments_and_strings_def by (rule remove_block_comments_no_marker)
  from a b remove_block_comments_no_marker [of c] d show ?thesis by blast
qed

theorem block_comment_loop_terminates_witness:
  "block_comment_round ''a /* b */ c /* d'' = Inr ''a  c /* d''
   \<and> length ''a  c /* d'' < length ''a /* b */ c /* d''
   \<and> block_comment_rounds (Suc (length ''a /* b */ c /* d'')) ''a /* b */ c /* d'' = Some ''a  c ''
   \<and> remove_block_comments ''a /* b */ c /* d'' = ''a  c ''"
proof -
  have a: "block_comment_round ''a /* b */ c /* d'' = Inr ''a  c /* d''" by code_simp
  have b: "remove_block_comments ''a /* b */ c /* d'' = ''a  c ''" by code_simp
  from block_comment_loop_terminates [of "''a /* b */ c /* d''"] a b
  show ?thesis by simp
qed

subsection \<open>A block comment that is not closed\<close>

lemma str_find_first_marker:
  assumes "\<not> sublist ''/*'' pre"
  shows "str_find ''/*'' (pre @ ''/*'' @ rest) = Some (length pre)"
  using assms
proof (induction pre)
  case Nil
  then show ?case by simp
next
  case (Cons x xs)
  from Cons.prems have n: "\<not> prefix ''/*'' (x # xs)" and s: "\<not> sublist ''/*'' xs"
    by (simp_all add: sublist_Cons_right)
  from n have "\<not> prefix ''/*'' (x # xs @ ''/*'' @ rest)"
    by (cases xs) auto
  with Cons.IH [OF s] show ?case by simp
qed

lemma content_after_rounds_result:
  "content_after_rounds n c = Some c' \<Longrightarrow> remove_block_comments c = remove_block_comments c'"
proof (induction n arbitrary: c)
  case 0
  then show ?case by simp
next
  case (Suc n)
  then obtain d where d: "block_comment_round c = Inr d" and r: "content_after_rounds n d = Some c'"
    by (cases "block_comment_round c") auto
  from Suc.IH [OF r] d show ?case
    by (simp add: remove_block_comments.simps [of c])
qed

text \<open>
  Claim C6, as the code has it. Take the text after the literals and the \<open>//\<close> comments
  have been removed and the block comments closed before have been cut out, one per round
  of the loop. When the first opening marker \<open>/*\<close> of that text has no closing marker
  \<open>*/\<close> from that marker on, the Lexical Stripper returns that text cut immediately before
  the marker. There is no exception to raise: the function is total.
\<close>

theorem unterminated_block_comment_truncates:
  assumes "content_after_rounds n (remove_line_comments (remove_strings t)) = Some (pre @ ''/*'' @ rest)"
    and "\<not> sublist ''/*'' pre"
    and "\<not> sublist ''*/'' (''/*'' @ rest)"
  shows "remove_comments_and_strings t = pre"
proof -
  let ?c = "pre @ ''/*'' @ rest"
  have f: "str_find ''/*'' ?c = Some (length pre)"
    by (rule str_find_first_marker) (rule assms(2))
  have "drop (length pre) ?c = ''/*'' @ rest" by simp
  with assms(3) have e: "str_find ''*/'' (drop (length pre) ?c) = None"
    by (simp only: str_find_None not_False_eq_True)
  have "block_comment_round ?c = Inl pre"
    by (simp only: block_comment_round_find f e option.case) simp
  then have "remove_block_comments ?c = pre"
    by (subst remove_block_comments.simps) (simp only: sum.case)
  with content_after_rounds_result [OF assms(1)] show ?thesis
    by (simp add: remove_comments_and_strings_def)
qed

theorem unterminated_block_comment_truncates_witness:
  "content_after_rounds 1 (remove_line_comments (remove_strings
      ''int a; /* one */\<newline>int b;\<newline>int c;\<newline>int d;\<newline>/* open\<newline>int f;\<newline>int g;\<newline>int h;\<newline>int i;\<newline>int j;\<newline>''))
     = Some (''int a; \<newline>int b;\<newline>int c;\<newline>int d;\<newline>'' @ ''/*'' @
       '' open\<newline>int f;\<newline>int g;\<newline>int h;\<newline>int i;\<newline>int j;\<newline>'')
   \<and> \<not> sublist ''/*'' ''int a; \<newline>int b;\<newline>int c;\<newline>int d;\<newline>''
   \<and> \<not> sublist ''*/'' (''/*'' @ '' open\<newline>int f;\<newline>int g;\<newline>int h;\<newline>int i;\<newline>int j;\<newline>'')
   \<and> remove_comments_and_strings
      ''int a; /* one */\<newline>int b;\<newline>int c;\<newline>int d;\<newline>/* open\<newline>int f;\<newline>int g;\<newline>int h;\<newline>int i;\<newline>int j;\<newline>''
     = ''int a; \<newline>int b;\<newline>int c;\<newline>int d;\<newline>''"
proof -
  have a: "content_after_rounds 1 (remove_line_comments (remove_strings
      ''int a; /* one */\<newline>int b;\<newline>int c;\<newline>int d;\<newline>/* open\<newline>int f;\<newline>int g;\<newline>int h;\<newline>int i;\<newline>int j;\<newline>''))
     = Some (''int a; \<newline>int b;\<newline>int c;\<newline>int d;\<newline>'' @ ''/*'' @
       '' open\<newline>int f;\<newline>int g;\<newline>int h;\<newline>int i;\<newline>int j;\<newline>'')"
    by code_simp
  have b: "\<not> sublist ''/*'' ''int a; \<newline>int b;\<newline>int c;\<newline>int d;\<newline>''"
    by code_simp
  have c: "\<not> sublist ''*/'' (''/*'' @ '' open\<newline>int f;\<newline>int g;\<newline>int h;\<newline>int i;\<newline>int j;\<newline>'')"
    by code_simp
  from unterminated_block_comment_truncates [OF a b c] a b c show ?thesis
    by (intro conjI)
qed

text \<open>
  An opening marker inside a \<open>//\<close> comment has no closing marker after it, in the text as
  it is after the removal of the literals; the line comment is removed with it, and the
  lines that follow stay.
\<close>

theorem line_comment_hides_block_marker:
  "remove_strings ''a // /* b\<newline>c'' = ''a // '' @ ''/*'' @ '' b\<newline>c''
   \<and> \<not> sublist ''/*'' ''a // ''
   \<and> \<not> sublist ''*/'' (''/*'' @ '' b\<newline>c'')
   \<and> remove_comments_and_strings ''a // /* b\<newline>c'' = ''a \<newline>c''
   \<and> remove_comments_and_strings ''a // /* b\<newline>c'' \<noteq> ''a // ''"
proof -
  have a: "remove_strings ''a // /* b\<newline>c'' = ''a // '' @ ''/*'' @ '' b\<newline>c''" by code_simp
  have b: "\<not> sublist ''/*'' ''a // ''" by code_simp
  have c: "\<not> sublist ''*/'' (''/*'' @ '' b\<newline>c'')" by code_simp
  have d: "remove_comments_and_strings ''a // /* b\<newline>c'' = ''a \<newline>c''" by code_simp
  from d have e: "remove_comments_and_strings ''a // /* b\<newline>c'' \<noteq> ''a // ''" by simp
  from a b c d e show ?thesis by (intro conjI)
qed

subsection \<open>Stripping twice\<close>

lemma set_remove_comments:
  "set (remove_block_comments (remove_line_comments s)) \<subseteq> set s"
  using set_remove_block_comments [of "remove_line_comments s"] set_cut_line_comments [of s]
  by (auto simp: remove_line_comments_cut)

lemma comments_gone:
  "\<not> sublist ''//'' (remove_comments_and_strings t)
   \<and> \<not> sublist ''/*'' (remove_comments_and_strings t)
   \<and> remove_line_comments (remove_comments_and_strings t) = remove_comments_and_strings t
   \<and> remove_block_comments (remove_comments_and_strings t) = remove_comments_and_strings t"
proof -
  let ?c = "remove_line_comments (remove_strings t)"
  have "\<not> sublist ''//'' ?c"
    by (simp add: remove_line_comments_cut cut_line_comments_no_marker)
  then have l: "\<not> sublist ''//'' (remove_comments_and_strings t)"
    unfolding remove_comments_and_strings_def by (rule remove_block_comments_no_line_marker)
  then have a: "remove_line_comments (remove_comments_and_strings t) = remove_comments_and_strings t"
    by (simp add: remove_line_comments_cut cut_line_comments_id)
  have m: "\<not> sublist ''/*'' (remove_comments_and_strings t)"
    unfolding remove_comments_and_strings_def by (rule remove_block_comments_no_marker)
  then have "remove_block_comments (remove_comments_and_strings t) = remove_comments_and_strings t"
    by (rule remove_block_comments_id)
  with l m a show ?thesis by simp
qed

text \<open>
  The pattern of a literal reads the text after the opening quote one character at a
  time, and two at a backslash, up to the first quote it meets in this way; it fails at
  the end of the text and at a backslash that a newline or nothing follows. \<open>lit_end\<close> is
  the place of that closing quote, and \<open>sub_lit\<close> is what the substitution of the literals
  of one kind of quote computes.
\<close>

fun lit_end :: "char \<Rightarrow> string \<Rightarrow> nat option" where
  "lit_end q [] = None"
| "lit_end q [x] = (if x = q then Some 0 else None)"
| "lit_end q (x # y # ys) =
    (if x = q then Some 0
     else if x = backslash
       then (if y = newline then None else map_option (\<lambda>j. j + 2) (lit_end q ys))
       else map_option Suc (lit_end q (y # ys)))"

lemma lit_end_bound: "lit_end q r = Some j \<Longrightarrow> j < length r"
  by (induction q r arbitrary: j rule: lit_end.induct) (auto split: if_splits)

function sub_lit :: "char \<Rightarrow> string \<Rightarrow> string" where
  "sub_lit q [] = []"
| "sub_lit q (x # xs) =
    (if x = q
     then (case lit_end q xs of
             Some j \<Rightarrow> q # q # sub_lit q (drop (Suc j) xs)
           | None \<Rightarrow> x # sub_lit q xs)
     else x # sub_lit q xs)"
  by pat_completeness auto
termination
  by (relation "measure (\<lambda>(q, s). length s)") auto

definition literal_body :: "char \<Rightarrow> regex" where
  "literal_body q = Alt (Atom (NoneOf [q, backslash])) (Seq (Atom (Chr backslash)) (Atom Dot))"

lemma run_literal_body:
  assumes "q \<noteq> backslash"
  shows "run (literal_body q) no_flags k (b, r, g) =
    (case r of
       [] \<Rightarrow> None
     | x # xs \<Rightarrow>
        if x = q then None
        else if x = backslash
          then (case xs of [] \<Rightarrow> None
                | y # ys \<Rightarrow> if y = newline then None else k (y # x # b, ys, g))
          else k (x # b, xs, g))"
  using assms
  by (auto simp: literal_body_def no_flags_def split: list.splits option.splits)

lemma rep_literal_body:
  assumes "q \<noteq> backslash" and "length r < n"
  shows "rep n (run (literal_body q) no_flags) (run (Seq (Atom (Chr q)) Eps) no_flags Some) (b, r, g) =
    map_option (\<lambda>j. (rev (take (Suc j) r) @ b, drop (Suc j) r, g)) (lit_end q r)"
  using assms
proof (induction q r arbitrary: n b rule: lit_end.induct)
  case (1 q)
  then obtain m where "n = Suc m" by (cases n) auto
  then show ?case by (simp add: run_literal_body [OF "1.prems"(1)])
next
  case (2 q x)
  then obtain m where n: "n = Suc m" and m: "0 < m" by (cases n) auto
  then obtain m' where m': "m = Suc m'" by (cases m) auto
  have ic: "\<not> ignorecase no_flags" by (simp add: no_flags_def)
  show ?case
    by (simp add: n m' run_literal_body [OF "2.prems"(1)] ic)
next
  case (3 q x y ys)
  note qb = "3.prems"(1)
  from "3.prems"(2) obtain m where n: "n = Suc m" and m: "Suc (length ys) < m" by (cases n) auto
  have ic: "\<not> ignorecase no_flags" by (simp add: no_flags_def)
  show ?case
  proof (cases "x = q")
    case True
    then show ?thesis by (simp add: n run_literal_body [OF qb] ic)
  next
    case nq: False
    show ?thesis
    proof (cases "x = backslash")
      case True
      show ?thesis
      proof (cases "y = newline")
        case True
        with \<open>x = backslash\<close> nq show ?thesis
          by (simp add: n run_literal_body [OF qb] ic)
      next
        case False
        from m have l: "length ys < m" by simp
        from "3.IH"(1) [OF nq True False qb l, of "y # x # b"] nq True False
        show ?thesis
          by (cases "lit_end q ys") (simp_all add: n run_literal_body [OF qb] ic)
      qed
    next
      case False
      from m have l: "length (y # ys) < m" by simp
      from "3.IH"(2) [OF nq False qb l, of "x # b"] nq False
      show ?thesis
        by (cases "lit_end q (y # ys)") (simp_all add: n run_literal_body [OF qb] ic)
    qed
  qed
qed

lemma match_at_string_literal:
  assumes "q \<noteq> backslash"
  shows "match_at no_flags (string_literal q) b r =
    (case r of
       [] \<Rightarrow> None
     | x # xs \<Rightarrow>
        if x = q
        then map_option (\<lambda>j. (rev (take (Suc j) xs) @ q # b, drop (Suc j) xs, [])) (lit_end q xs)
        else None)"
proof (cases r)
  case Nil
  then show ?thesis by (simp add: match_at_def string_literal_def)
next
  case (Cons x xs)
  have ic: "\<not> ignorecase no_flags" by (simp add: no_flags_def)
  have "match_at no_flags (string_literal q) b (x # xs) =
      (if x = q
       then rep (Suc (length xs)) (run (literal_body q) no_flags)
              (run (Seq (Atom (Chr q)) Eps) no_flags Some) (x # b, xs, [])
       else None)"
    by (simp add: match_at_def string_literal_def literal_body_def run_Seq_cont ic del: rep.simps)
  also have "\<dots> = (if x = q
        then map_option (\<lambda>j. (rev (take (Suc j) xs) @ q # b, drop (Suc j) xs, [])) (lit_end q xs)
        else None)"
    by (simp only: rep_literal_body [OF assms, of xs "Suc (length xs)", OF lessI]) simp
  finally show ?thesis using Cons by simp
qed

lemma scan_string_literal:
  assumes "q \<noteq> backslash"
  shows "concat (map (\<lambda>x. case x of Keep c \<Rightarrow> [c] | Hit h \<Rightarrow> [q, q])
            (scan no_flags (string_literal q) b r)) = sub_lit q r"
  using assms
proof (induction q r arbitrary: b rule: sub_lit.induct)
  case (1 q)
  show ?case
    by (subst scan.simps) (simp add: match_at_string_literal [OF "1.prems"])
next
  case (2 q x xs)
  note qb = "2.prems"
  show ?case
  proof (cases "x = q")
    case True
    show ?thesis
    proof (cases "lit_end q xs")
      case None
      with True have m: "match_at no_flags (string_literal q) b (x # xs) = None"
        by (simp add: match_at_string_literal [OF qb])
      have "scan no_flags (string_literal q) b (x # xs) =
          Keep x # scan no_flags (string_literal q) (x # b) xs"
        by (subst scan.simps) (simp only: m option.case list.case)
      with "2.IH"(1) [OF True None qb] True None show ?thesis by simp
    next
      case (Some j)
      with True have m: "match_at no_flags (string_literal q) b (x # xs) =
          Some (rev (take (Suc j) xs) @ q # b, drop (Suc j) xs, [])"
        by (simp add: match_at_string_literal [OF qb])
      have l: "length (drop (Suc j) xs) < length (x # xs)" by simp
      have "scan no_flags (string_literal q) b (x # xs) =
          Hit (take (length (x # xs) - length (drop (Suc j) xs)) (x # xs)) #
          scan no_flags (string_literal q) (rev (take (Suc j) xs) @ q # b) (drop (Suc j) xs)"
        by (subst scan.simps) (simp only: m option.case fst_conv snd_conv l if_True)
      with "2.IH"(2) [OF True Some qb] True Some show ?thesis by simp
    qed
  next
    case False
    then have m: "match_at no_flags (string_literal q) b (x # xs) = None"
      by (simp add: match_at_string_literal [OF qb])
    have "scan no_flags (string_literal q) b (x # xs) =
        Keep x # scan no_flags (string_literal q) (x # b) xs"
      by (subst scan.simps) (simp only: m option.case list.case)
    with "2.IH"(3) [OF False qb] False show ?thesis by simp
  qed
qed

lemma remove_strings_sub_lit: "remove_strings s = sub_lit squote (sub_lit dquote s)"
proof -
  have d: "dquote \<noteq> backslash" and s: "squote \<noteq> backslash"
    by (simp_all add: dquote_def squote_def backslash_def)
  show ?thesis
    by (simp add: remove_strings_def re_sub_def scan_string_literal [OF d] scan_string_literal [OF s])
qed

text \<open>
  The quotes of one kind in a text without backslash, read from left to right. They are
  settled when they come in pairs of two adjacent quotes, with at most one quote alone
  after the last pair and no quote after that one: \<open>Broken\<close> is the state of a text
  whose quotes are not settled. The substitution of the literals leaves a settled text
  unchanged, and the removal of a comment keeps a text settled, since a comment neither
  starts nor ends between the two quotes of a pair.
\<close>

datatype qstate = Balanced | Opened | Single | Broken

fun qstep :: "char \<Rightarrow> qstate \<Rightarrow> char \<Rightarrow> qstate" where
  "qstep q Balanced x = (if x = q then Opened else Balanced)"
| "qstep q Opened x = (if x = q then Balanced else Single)"
| "qstep q Single x = (if x = q then Broken else Single)"
| "qstep q Broken x = Broken"

definition qrun :: "char \<Rightarrow> qstate \<Rightarrow> string \<Rightarrow> qstate" where
  "qrun q a s = foldl (qstep q) a s"

lemma qrun_Nil [simp]: "qrun q a [] = a"
  by (simp add: qrun_def)

lemma qrun_Cons [simp]: "qrun q a (x # xs) = qrun q (qstep q a x) xs"
  by (simp add: qrun_def)

lemma qrun_append: "qrun q a (xs @ ys) = qrun q (qrun q a xs) ys"
  by (simp add: qrun_def)

lemma qrun_Broken [simp]: "qrun q Broken s = Broken"
  by (induction s) simp_all

lemma qrun_Single: "qrun q Single s \<noteq> Broken \<longleftrightarrow> q \<notin> set s"
  by (induction s) auto

lemma qrun_free_Balanced: "q \<notin> set s \<Longrightarrow> qrun q Balanced s = Balanced"
  by (induction s) auto

lemma qrun_free: "q \<notin> set s \<Longrightarrow> a \<noteq> Broken \<Longrightarrow> qrun q a s \<noteq> Broken"
proof (cases s)
  case Nil
  assume "a \<noteq> Broken"
  with Nil show ?thesis by simp
next
  case (Cons x xs)
  assume f: "q \<notin> set s" and "a \<noteq> Broken"
  with Cons qrun_Single [of q xs] qrun_free_Balanced [of q xs] show ?thesis
    by (cases a) auto
qed

lemma qrun_prefix: "qrun q a (xs @ ys) \<noteq> Broken \<Longrightarrow> qrun q a xs \<noteq> Broken"
  by (auto simp: qrun_append)

lemma qrun_Opened_last:
  assumes "qrun q a m = Opened" and "m \<noteq> []"
  shows "last m = q"
proof -
  from assms(2) obtain m' c where m: "m = m' @ [c]"
    by (metis rev_exhaust)
  with assms(1) have "qstep q (qrun q a m') c = Opened" by (simp add: qrun_append)
  then have "c = q" by (cases "qrun q a m'") (auto split: if_splits)
  with m show ?thesis by simp
qed

lemma qrun_replace:
  assumes ok: "qrun q a (m @ z) \<noteq> Broken"
    and m: "m \<noteq> []" "hd m \<noteq> q"
    and z: "last m \<noteq> q \<or> z = [] \<or> hd z \<noteq> q"
    and w: "q \<notin> set w"
  shows "qrun q a (w @ z) \<noteq> Broken"
proof -
  let ?b = "qrun q a m"
  from ok have bz: "qrun q ?b z \<noteq> Broken" by (simp add: qrun_append)
  then have b: "?b \<noteq> Broken" by auto
  from m obtain c m' where cm: "m = c # m'" "c \<noteq> q" by (cases m) auto
  show ?thesis
  proof (cases a)
    case Balanced
    have "qrun q Balanced z \<noteq> Broken"
    proof (cases ?b)
      case Balanced
      with bz show ?thesis by simp
    next
      case Opened
      from qrun_Opened_last [OF Opened m(1)] z have "z = [] \<or> hd z \<noteq> q" by simp
      then show ?thesis
      proof
        assume "z = []"
        then show ?thesis by simp
      next
        assume h: "hd z \<noteq> q"
        show ?thesis
        proof (cases z)
          case Nil
          then show ?thesis by simp
        next
          case (Cons d z')
          with h bz Opened have "qrun q Single z' \<noteq> Broken" by simp
          then have "q \<notin> set z'" by (simp add: qrun_Single)
          with Cons h have "q \<notin> set z" by simp
          then show ?thesis by (simp add: qrun_free_Balanced)
        qed
      qed
    next
      case Single
      with bz have "q \<notin> set z" by (simp add: qrun_Single)
      then show ?thesis by (simp add: qrun_free_Balanced)
    next
      case Broken
      with b show ?thesis by simp
    qed
    with Balanced w show ?thesis by (simp add: qrun_append qrun_free_Balanced)
  next
    case Opened
    with ok cm have "qrun q Single (m' @ z) \<noteq> Broken" by simp
    then have "q \<notin> set z" by (simp add: qrun_Single)
    with w have "q \<notin> set (w @ z)" by simp
    with Opened show ?thesis by (intro qrun_free) simp_all
  next
    case Single
    with ok have "q \<notin> set (m @ z)" by (simp add: qrun_Single)
    with w have "q \<notin> set (w @ z)" by simp
    with Single show ?thesis by (intro qrun_free) simp_all
  next
    case Broken
    with ok show ?thesis by simp
  qed
qed

lemma qrun_cut_line_comments:
  assumes "q \<noteq> CHR ''/''" and "q \<noteq> newline"
  shows "qrun q a s \<noteq> Broken \<Longrightarrow> qrun q a (cut_line_comments s) \<noteq> Broken"
proof (induction s arbitrary: a rule: cut_line_comments.induct)
  case 1
  then show ?case by simp
next
  case (2 x)
  then show ?case by simp
next
  case (3 x y ys)
  show ?case
  proof (cases "x = CHR ''/'' \<and> y = CHR ''/''")
    case True
    let ?m = "x # y # takeWhile (\<lambda>c. c \<noteq> newline) ys"
    let ?z = "dropWhile (\<lambda>c. c \<noteq> newline) ys"
    have s: "x # y # ys = ?m @ ?z" by simp
    have z: "last ?m \<noteq> q \<or> ?z = [] \<or> hd ?z \<noteq> q"
      using dropWhile_not_newline_cases [of ys] assms(2) by auto
    from "3.prems" have "qrun q a (?m @ ?z) \<noteq> Broken" by simp
    from qrun_replace [OF this _ _ z, of "[]"] True assms(1)
    have "qrun q a ?z \<noteq> Broken" by simp
    from "3.IH"(1) [OF True this] True show ?thesis by simp
  next
    case False
    from "3.prems" have "qrun q (qstep q a x) (y # ys) \<noteq> Broken" by simp
    from "3.IH"(2) [OF False this] False show ?thesis by auto
  qed
qed

lemma qrun_block_comment_round:
  assumes q: "q \<noteq> CHR ''/''" and ok: "qrun q Balanced c \<noteq> Broken"
  shows "case block_comment_round c of
           Inl r \<Rightarrow> qrun q Balanced r \<noteq> Broken
         | Inr c' \<Rightarrow> qrun q Balanced c' \<noteq> Broken"
proof (cases "str_find ''/*'' c")
  case None
  with ok show ?thesis by (simp add: block_comment_round_find)
next
  case (Some i)
  have t: "qrun q Balanced (take i c) \<noteq> Broken"
    using ok qrun_prefix [of q Balanced "take i c" "drop i c"] by simp
  show ?thesis
  proof (cases "str_find ''*/'' (drop i c)")
    case None
    with Some t show ?thesis by (simp add: block_comment_round_find)
  next
    case j: (Some j)
    let ?d = "drop i c"
    let ?m = "take (j + 2) ?d"
    let ?z = "drop (j + 2) ?d"
    from str_find_Some [OF Some] obtain d' where d: "?d = CHR ''/'' # d'"
      by (auto simp: prefix_def)
    from str_find_Some [OF j] have l: "j + 2 \<le> length ?d" and p: "prefix ''*/'' (drop j ?d)"
      by simp_all
    from p obtain e where e: "drop j ?d = ''*/'' @ e" by (auto simp: prefix_def)
    have "?m = take j ?d @ take 2 (drop j ?d)" by (rule take_add)
    also have "\<dots> = take j ?d @ ''*/''" by (simp only: e) simp
    finally have lm: "last ?m = CHR ''/''" by simp
    have hm: "hd ?m = CHR ''/''" and nm: "?m \<noteq> []" using d by simp_all
    have eq: "take i c @ (?m @ ?z) = c" by (simp only: append_take_drop_id)
    have "qrun q Balanced (take i c @ (?m @ ?z)) \<noteq> Broken"
      by (subst eq) (rule ok)
    then have "qrun q (qrun q Balanced (take i c)) (?m @ ?z) \<noteq> Broken"
      by (simp only: qrun_append [of q Balanced "take i c" "?m @ ?z"] not_False_eq_True)
    from qrun_replace [OF this nm, of "[]"] hm lm q
    have "qrun q (qrun q Balanced (take i c)) ?z \<noteq> Broken" by simp
    then have "qrun q Balanced (take i c @ drop (i + (j + 2)) c) \<noteq> Broken"
      by (simp add: qrun_append add.commute)
    with Some j show ?thesis by (simp add: block_comment_round_find)
  qed
qed

lemma qrun_remove_block_comments:
  "q \<noteq> CHR ''/'' \<Longrightarrow> qrun q Balanced c \<noteq> Broken
     \<Longrightarrow> qrun q Balanced (remove_block_comments c) \<noteq> Broken"
proof (induction c rule: remove_block_comments.induct)
  case (1 content)
  from qrun_block_comment_round [OF "1.prems"] "1.IH" "1.prems"(1)
  show ?case
    by (cases "block_comment_round content")
       (simp_all add: remove_block_comments.simps [of content])
qed

lemma lit_end_hd [simp]: "lit_end q (q # s) = Some 0"
  by (cases s) simp_all

lemma lit_end_other:
  "x \<noteq> q \<Longrightarrow> x \<noteq> backslash \<Longrightarrow> lit_end q (x # s) = map_option Suc (lit_end q s)"
  by (cases s) simp_all

lemma lit_end_zero: "lit_end q s = Some 0 \<Longrightarrow> \<exists>t. s = q # t"
  by (cases "(q, s)" rule: lit_end.cases) (auto split: if_splits)

lemma lit_end_nth: "lit_end q s = Some j \<Longrightarrow> j < length s \<and> s ! j = q"
  by (induction q s arbitrary: j rule: lit_end.induct) (auto split: if_splits)

lemma set_sub_lit: "set (sub_lit q s) \<subseteq> set s"
proof (induction q s rule: sub_lit.induct)
  case (1 q)
  then show ?case by simp
next
  case (2 q x xs)
  show ?case
  proof (cases "x = q")
    case True
    show ?thesis
    proof (cases "lit_end q xs")
      case None
      with True 2 show ?thesis by auto
    next
      case (Some j)
      with True "2.IH"(2) [OF True Some] show ?thesis
        by (auto dest: in_set_dropD)
    qed
  next
    case False
    with 2 show ?thesis by auto
  qed
qed

lemma length_sub_lit: "length (sub_lit q s) \<le> length s"
proof (induction q s rule: sub_lit.induct)
  case (1 q)
  then show ?case by simp
next
  case (2 q x xs)
  show ?case
  proof (cases "x = q")
    case True
    show ?thesis
    proof (cases "lit_end q xs")
      case None
      with True 2 show ?thesis by auto
    next
      case (Some j)
      from lit_end_nth [OF Some] have "j < length xs" by simp
      with True Some "2.IH"(2) [OF True Some] show ?thesis by auto
    qed
  next
    case False
    with 2 show ?thesis by auto
  qed
qed

text \<open>A literal pass that leaves a text starting with a quote unchanged.\<close>

lemma sub_lit_fixed_quote:
  assumes "sub_lit q (q # xs) = q # xs"
  shows "(lit_end q xs = None \<and> sub_lit q xs = xs) \<or> (\<exists>zs. xs = q # zs \<and> sub_lit q zs = zs)"
proof (cases "lit_end q xs")
  case None
  with assms show ?thesis by simp
next
  case (Some j)
  with assms have e: "q # sub_lit q (drop (Suc j) xs) = xs" by simp
  from lit_end_nth [OF Some] have j: "j < length xs" by simp
  from e have "length xs = Suc (length (sub_lit q (drop (Suc j) xs)))"
    by (metis length_Cons)
  with length_sub_lit [of q "drop (Suc j) xs"] j have "j = 0" by simp
  with Some obtain zs where z: "xs = q # zs" by (auto dest: lit_end_zero)
  with e \<open>j = 0\<close> have "sub_lit q zs = zs" by simp
  with z show ?thesis by blast
qed

lemma lit_end_None_no_quote:
  assumes "q \<noteq> backslash"
  shows "lit_end q xs = None \<Longrightarrow> backslash \<notin> set (sub_lit q xs) \<Longrightarrow> q \<notin> set xs"
  using assms
proof (induction q xs rule: lit_end.induct)
  case (1 q)
  then show ?case by simp
next
  case (2 q x)
  then show ?case by (auto split: if_splits)
next
  case (3 q x y ys)
  from "3.prems"(1) have xq: "x \<noteq> q" by (auto split: if_splits)
  with "3.prems"(2) have xb: "x \<noteq> backslash" and r: "backslash \<notin> set (sub_lit q (y # ys))"
    by auto
  from "3.prems"(1) xq xb have "lit_end q (y # ys) = None" by simp
  from "3.IH"(2) [OF xq xb this r "3.prems"(3)] xq show ?case by simp
qed

lemma qrun_sub_lit:
  assumes "q \<noteq> backslash"
  shows "backslash \<notin> set (sub_lit q s) \<Longrightarrow> qrun q Balanced (sub_lit q s) \<noteq> Broken"
  using assms
proof (induction q s rule: sub_lit.induct)
  case (1 q)
  then show ?case by simp
next
  case (2 q x xs)
  note qb = "2.prems"(2)
  show ?case
  proof (cases "x = q")
    case True
    show ?thesis
    proof (cases "lit_end q xs")
      case None
      with True "2.prems"(1) have b: "backslash \<notin> set (sub_lit q xs)" by simp
      from lit_end_None_no_quote [OF qb None b] set_sub_lit [of q xs]
      have "q \<notin> set (sub_lit q xs)" by auto
      then have "qrun q Opened (sub_lit q xs) \<noteq> Broken" by (intro qrun_free) simp_all
      with True None show ?thesis by simp
    next
      case (Some j)
      with True "2.prems"(1) have "backslash \<notin> set (sub_lit q (drop (Suc j) xs))" by simp
      from "2.IH"(2) [OF True Some this qb] True Some show ?thesis by simp
    qed
  next
    case False
    with "2.prems"(1) have "backslash \<notin> set (sub_lit q xs)" by simp
    from "2.IH"(3) [OF False this qb] False show ?thesis by simp
  qed
qed

lemma lit_end_free: "q \<notin> set s \<Longrightarrow> lit_end q s = None"
  by (cases "lit_end q s") (auto dest: lit_end_nth)

lemma sub_lit_free: "q \<notin> set s \<Longrightarrow> sub_lit q s = s"
  by (induction s) auto

lemma sub_lit_settled:
  "qrun q Balanced s \<noteq> Broken \<Longrightarrow> sub_lit q s = s"
proof (induction q s rule: sub_lit.induct)
  case (1 q)
  then show ?case by simp
next
  case (2 q x xs)
  show ?case
  proof (cases "x = q")
    case True
    with "2.prems" have o: "qrun q Opened xs \<noteq> Broken" by simp
    show ?thesis
    proof (cases xs)
      case Nil
      with True show ?thesis by simp
    next
      case (Cons y ys)
      show ?thesis
      proof (cases "y = q")
        case yq: True
        with Cons have e: "lit_end q xs = Some 0" by simp
        from o Cons yq have "qrun q Balanced (drop (Suc 0) xs) \<noteq> Broken" by simp
        from "2.IH"(2) [OF True e this] True e Cons yq show ?thesis by simp
      next
        case False
        with o Cons have "qrun q Single ys \<noteq> Broken" by simp
        then have "q \<notin> set ys" by (simp add: qrun_Single)
        with False Cons have f: "q \<notin> set xs" by simp
        with True show ?thesis by (simp add: lit_end_free sub_lit_free)
      qed
    qed
  next
    case False
    with "2.prems" have "qrun q Balanced xs \<noteq> Broken" by simp
    from "2.IH"(3) [OF False this] False show ?thesis by simp
  qed
qed

lemma lit_end_sub_lit:
  assumes "q \<noteq> backslash" and "q \<noteq> newline"
  shows "lit_end q xs = None \<Longrightarrow> lit_end q (sub_lit q xs) = None"
  using assms
proof (induction q xs rule: lit_end.induct)
  case (1 q)
  then show ?case by simp
next
  case (2 q x)
  then show ?case by (auto split: if_splits)
next
  case (3 q x y ys)
  note qb = "3.prems"(2) and qn = "3.prems"(3)
  from "3.prems"(1) have xq: "x \<noteq> q" by (auto split: if_splits)
  show ?case
  proof (cases "x = backslash")
    case True
    show ?thesis
    proof (cases "y = newline")
      case True
      with \<open>x = backslash\<close> xq qn show ?thesis by simp
    next
      case False
      with True xq "3.prems"(1) have n: "lit_end q ys = None" by simp
      from "3.IH"(1) [OF xq True False n qb qn] have i: "lit_end q (sub_lit q ys) = None" .
      have "sub_lit q (x # y # ys) = x # y # sub_lit q ys"
        using xq n by simp
      with i True False xq show ?thesis by simp
    qed
  next
    case False
    with xq "3.prems"(1) have n: "lit_end q (y # ys) = None" by simp
    from "3.IH"(2) [OF xq False n qb qn] have i: "lit_end q (sub_lit q (y # ys)) = None" .
    have "sub_lit q (x # y # ys) = x # sub_lit q (y # ys)" using xq by simp
    with i show ?thesis by (simp only: lit_end_other [OF xq False] option.map)
  qed
qed

lemma sub_lit_idem:
  assumes "q \<noteq> backslash" and "q \<noteq> newline"
  shows "sub_lit q (sub_lit q s) = sub_lit q s"
  using assms
proof (induction q s rule: sub_lit.induct)
  case (1 q)
  then show ?case by simp
next
  case (2 q x xs)
  show ?case
  proof (cases "x = q")
    case True
    show ?thesis
    proof (cases "lit_end q xs")
      case None
      from lit_end_sub_lit [OF "2.prems" None] "2.IH"(1) [OF True None "2.prems"] True None
      show ?thesis by simp
    next
      case (Some j)
      from "2.IH"(2) [OF True Some "2.prems"] True Some show ?thesis by simp
    qed
  next
    case False
    from "2.IH"(3) [OF False "2.prems"] False show ?thesis by simp
  qed
qed

text \<open>
  The two substitutions one after the other. A quote of the first kind that no literal
  closes survives the second substitution only with the backslashes that hide the quotes
  after it, unless these quotes are replaced with them.
\<close>

lemma lit_end_past_other_literal:
  assumes "q' \<noteq> q" and "q' \<noteq> backslash" and "q \<noteq> backslash"
  shows "lit_end q' ys = Some k \<Longrightarrow> lit_end q ys = None
           \<Longrightarrow> lit_end q (drop (Suc k) ys) = None"
  using assms
proof (induction q' ys arbitrary: k rule: lit_end.induct)
  case (1 q')
  then show ?case by simp
next
  case (2 q' x)
  then show ?case by (auto split: if_splits)
next
  case (3 q' x y ys)
  note d = "3.prems"(3) and b' = "3.prems"(4) and b = "3.prems"(5)
  show ?case
  proof (cases "x = q'")
    case True
    with "3.prems"(1) have k: "k = 0" by simp
    from True d b' "3.prems"(2) have "lit_end q (y # ys) = None"
      by (simp add: lit_end_other)
    with k show ?thesis by simp
  next
    case nq: False
    show ?thesis
    proof (cases "x = backslash")
      case True
      with nq "3.prems"(1) obtain k' where yn: "y \<noteq> newline"
        and k': "lit_end q' ys = Some k'" and k: "k = k' + 2"
        by (auto split: if_splits)
      from True b yn "3.prems"(2) have "lit_end q ys = None" by (auto split: if_splits)
      from "3.IH"(1) [OF nq True yn k' this d b' b] k show ?thesis by simp
    next
      case False
      with nq "3.prems"(1) obtain k' where k': "lit_end q' (y # ys) = Some k'" and k: "k = Suc k'"
        by auto
      from "3.prems"(2) have xq: "x \<noteq> q" by (auto split: if_splits)
      with False "3.prems"(2) have "lit_end q (y # ys) = None" by simp
      from "3.IH"(2) [OF nq False k' this d b' b] k show ?thesis by simp
    qed
  qed
qed

lemma no_quote_after_open_literal:
  assumes "q' \<noteq> q" and "q' \<noteq> backslash" and "q \<noteq> backslash"
  shows "lit_end q xs = None \<Longrightarrow> backslash \<notin> set (sub_lit q' xs)
           \<Longrightarrow> q \<notin> set (sub_lit q' xs)"
  using assms
proof (induction q' xs rule: sub_lit.induct)
  case (1 q')
  then show ?case by simp
next
  case (2 q' x xs)
  note d = "2.prems"(3) and b' = "2.prems"(4) and b = "2.prems"(5)
  show ?case
  proof (cases "x = q'")
    case True
    with d b' "2.prems"(1) have n: "lit_end q xs = None" by (simp add: lit_end_other)
    show ?thesis
    proof (cases "lit_end q' xs")
      case None
      with True "2.prems"(2) have "backslash \<notin> set (sub_lit q' xs)" by simp
      from "2.IH"(1) [OF True None n this d b' b] True None d show ?thesis by simp
    next
      case (Some k)
      with True "2.prems"(2) have r: "backslash \<notin> set (sub_lit q' (drop (Suc k) xs))" by simp
      from lit_end_past_other_literal [OF d b' b Some n]
      have "lit_end q (drop (Suc k) xs) = None" .
      from "2.IH"(2) [OF True Some this r d b' b] True Some d show ?thesis by simp
    qed
  next
    case False
    with "2.prems"(2) have xb: "x \<noteq> backslash" and r: "backslash \<notin> set (sub_lit q' xs)"
      by auto
    from "2.prems"(1) have xq: "x \<noteq> q" by (cases xs) (auto split: if_splits)
    with xb "2.prems"(1) have "lit_end q xs = None" by (simp add: lit_end_other)
    from "2.IH"(3) [OF False this r d b' b] False xq show ?thesis by simp
  qed
qed

lemma sub_lit_fixed_suffix:
  "sub_lit q (a @ b) = a @ b \<Longrightarrow> a = [] \<or> last a \<noteq> q \<Longrightarrow> sub_lit q b = b"
proof (induction a rule: length_induct)
  case (1 a)
  have ih: "sub_lit q b = b"
    if "length a0 < length a" "sub_lit q (a0 @ b) = a0 @ b" "a0 = [] \<or> last a0 \<noteq> q" for a0
    using "1.IH" that by blast
  show ?case
  proof (cases a)
    case Nil
    with "1.prems" show ?thesis by simp
  next
    case (Cons x a')
    show ?thesis
    proof (cases "x = q")
      case False
      with Cons "1.prems"(1) have f: "sub_lit q (a' @ b) = a' @ b" by simp
      from Cons "1.prems"(2) have "a' = [] \<or> last a' \<noteq> q" by (auto split: if_splits)
      from ih [OF _ f this] Cons show ?thesis by simp
    next
      case True
      with Cons "1.prems"(2) have ne: "a' \<noteq> []" by auto
      with Cons "1.prems"(2) have la: "last a' \<noteq> q" by simp
      from Cons True "1.prems"(1) have "sub_lit q (q # (a' @ b)) = q # (a' @ b)" by simp
      from sub_lit_fixed_quote [OF this] show ?thesis
      proof
        assume "lit_end q (a' @ b) = None \<and> sub_lit q (a' @ b) = a' @ b"
        then have f: "sub_lit q (a' @ b) = a' @ b" ..
        from ih [OF _ f] la Cons show ?thesis by simp
      next
        assume "\<exists>zs. a' @ b = q # zs \<and> sub_lit q zs = zs"
        then obtain zs where z: "a' @ b = q # zs" and f: "sub_lit q zs = zs" by blast
        from z ne obtain a'' where a'': "a' = q # a''" and zs: "zs = a'' @ b"
          by (cases a') auto
        from la a'' have l: "a'' = [] \<or> last a'' \<noteq> q" by (auto split: if_splits)
        from f zs have f': "sub_lit q (a'' @ b) = a'' @ b" by simp
        from ih [OF _ f' l] Cons a'' show ?thesis by simp
      qed
    qed
  qed
qed

lemma qrun_other_literal_pass:
  assumes "q' \<noteq> q" and "q' \<noteq> backslash" and "q \<noteq> backslash"
  shows "sub_lit q u = u \<Longrightarrow> backslash \<notin> set (sub_lit q' u)
           \<Longrightarrow> qrun q Balanced (sub_lit q' u) \<noteq> Broken"
proof (induction u rule: length_induct)
  case (1 u)
  note d = assms(1) and b' = assms(2) and b = assms(3)
  have ih: "qrun q Balanced (sub_lit q' v) \<noteq> Broken"
    if "length v < length u" "sub_lit q v = v" "backslash \<notin> set (sub_lit q' v)" for v
    using "1.IH" that by blast
  show ?case
  proof (cases u)
    case Nil
    then show ?thesis by simp
  next
    case (Cons y ys)
    show ?thesis
    proof (cases "y = q")
      case True
      with d have yq': "y \<noteq> q'" by simp
      with Cons have s: "sub_lit q' u = q # sub_lit q' ys" using True by simp
      with "1.prems"(2) have r: "backslash \<notin> set (sub_lit q' ys)" by simp
      from Cons True "1.prems"(1) have "sub_lit q (q # ys) = q # ys" by simp
      from sub_lit_fixed_quote [OF this] show ?thesis
      proof
        assume "lit_end q ys = None \<and> sub_lit q ys = ys"
        then have "lit_end q ys = None" ..
        from no_quote_after_open_literal [OF d b' b this r]
        have "qrun q Opened (sub_lit q' ys) \<noteq> Broken" by (intro qrun_free) simp_all
        with s show ?thesis by simp
      next
        assume "\<exists>zs. ys = q # zs \<and> sub_lit q zs = zs"
        then obtain zs where z: "ys = q # zs" and f: "sub_lit q zs = zs" by blast
        from z d have s': "sub_lit q' ys = q # sub_lit q' zs" by simp
        with r have "backslash \<notin> set (sub_lit q' zs)" by simp
        from ih [OF _ f this] Cons z have "qrun q Balanced (sub_lit q' zs) \<noteq> Broken" by simp
        with s s' show ?thesis by simp
      qed
    next
      case yq: False
      with Cons "1.prems"(1) have fy: "sub_lit q ys = ys" by simp
      show ?thesis
      proof (cases "y = q' \<and> lit_end q' ys \<noteq> None")
        case True
        then obtain k where k: "lit_end q' ys = Some k" by auto
        from lit_end_nth [OF k] have kl: "k < length ys" and kq: "ys ! k = q'" by simp_all
        let ?a = "take (Suc k) ys"
        let ?r = "drop (Suc k) ys"
        from kl kq have "last ?a = q'" by (simp add: take_Suc_conv_app_nth)
        with d have la: "?a = [] \<or> last ?a \<noteq> q" by simp
        have "sub_lit q (?a @ ?r) = ?a @ ?r" using fy by simp
        from sub_lit_fixed_suffix [OF this la] have fr: "sub_lit q ?r = ?r" .
        from True k Cons have s: "sub_lit q' u = q' # q' # sub_lit q' ?r" by simp
        with "1.prems"(2) have "backslash \<notin> set (sub_lit q' ?r)" by simp
        from ih [OF _ fr this] Cons have "qrun q Balanced (sub_lit q' ?r) \<noteq> Broken" by simp
        with s d show ?thesis by simp
      next
        case False
        with Cons have s: "sub_lit q' u = y # sub_lit q' ys" by auto
        with "1.prems"(2) have "backslash \<notin> set (sub_lit q' ys)" by simp
        from ih [OF _ fy this] Cons have "qrun q Balanced (sub_lit q' ys) \<noteq> Broken" by simp
        with s yq show ?thesis by simp
      qed
    qed
  qed
qed

lemma quote_facts:
  "dquote \<noteq> backslash" "squote \<noteq> backslash" "dquote \<noteq> newline" "squote \<noteq> newline"
  "dquote \<noteq> CHR ''/''" "squote \<noteq> CHR ''/''" "squote \<noteq> dquote"
  by (simp_all add: dquote_def squote_def backslash_def newline_def)

lemma remove_strings_settles:
  assumes "backslash \<notin> set (remove_strings t)"
  shows "qrun dquote Balanced (remove_strings t) \<noteq> Broken"
    and "qrun squote Balanced (remove_strings t) \<noteq> Broken"
proof -
  have f: "sub_lit dquote (sub_lit dquote t) = sub_lit dquote t"
    by (rule sub_lit_idem) (rule quote_facts)+
  from assms have b: "backslash \<notin> set (sub_lit squote (sub_lit dquote t))"
    by (simp add: remove_strings_sub_lit)
  from qrun_other_literal_pass [OF quote_facts(7) quote_facts(2) quote_facts(1) f b]
  show "qrun dquote Balanced (remove_strings t) \<noteq> Broken"
    by (simp add: remove_strings_sub_lit)
  from qrun_sub_lit [OF quote_facts(2) b]
  show "qrun squote Balanced (remove_strings t) \<noteq> Broken"
    by (simp add: remove_strings_sub_lit)
qed

lemma remove_strings_settled:
  assumes "backslash \<notin> set s"
    and "qrun dquote Balanced s \<noteq> Broken" and "qrun squote Balanced s \<noteq> Broken"
  shows "remove_strings s = s"
  using assms by (simp add: remove_strings_sub_lit sub_lit_settled)

lemma stripping_settled_text:
  assumes "backslash \<notin> set (remove_strings t)"
  shows "remove_strings (remove_comments_and_strings t) = remove_comments_and_strings t"
proof (rule remove_strings_settled)
  let ?s = "remove_strings t"
  have "set (remove_comments_and_strings t) \<subseteq> set ?s"
    using set_remove_comments [of ?s] by (simp add: remove_comments_and_strings_def)
  with assms show "backslash \<notin> set (remove_comments_and_strings t)" by auto
  from remove_strings_settles(1) [OF assms]
  have "qrun dquote Balanced (remove_line_comments ?s) \<noteq> Broken"
    unfolding remove_line_comments_cut
    by (intro qrun_cut_line_comments) (simp_all add: quote_facts)
  then show "qrun dquote Balanced (remove_comments_and_strings t) \<noteq> Broken"
    unfolding remove_comments_and_strings_def
    by (intro qrun_remove_block_comments) (simp_all add: quote_facts)
  from remove_strings_settles(2) [OF assms]
  have "qrun squote Balanced (remove_line_comments ?s) \<noteq> Broken"
    unfolding remove_line_comments_cut
    by (intro qrun_cut_line_comments) (simp_all add: quote_facts)
  then show "qrun squote Balanced (remove_comments_and_strings t) \<noteq> Broken"
    unfolding remove_comments_and_strings_def
    by (intro qrun_remove_block_comments) (simp_all add: quote_facts)
qed

text \<open>
  Claim C5, as the code has it. For every input the output of the Lexical Stripper
  contains no \<open>//\<close> and no \<open>/*\<close>, and the removal of the line comments and of the block
  comments leaves it unchanged. The whole Lexical Stripper leaves its output unchanged
  for every input in which no backslash is left after the replacement of the literals,
  that is in which every backslash lies inside a string or character literal that the
  Lexical Stripper replaces.
\<close>

theorem stripping_fixed_point:
  "\<not> sublist ''//'' (remove_comments_and_strings t)
   \<and> \<not> sublist ''/*'' (remove_comments_and_strings t)
   \<and> remove_line_comments (remove_comments_and_strings t) = remove_comments_and_strings t
   \<and> remove_block_comments (remove_comments_and_strings t) = remove_comments_and_strings t
   \<and> (backslash \<notin> set (remove_strings t) \<longrightarrow>
        remove_comments_and_strings (remove_comments_and_strings t)
          = remove_comments_and_strings t)"
proof -
  have "remove_comments_and_strings (remove_comments_and_strings t) = remove_comments_and_strings t"
    if b: "backslash \<notin> set (remove_strings t)"
  proof -
    have "remove_comments_and_strings (remove_comments_and_strings t) =
        remove_block_comments (remove_line_comments (remove_comments_and_strings t))"
      by (simp add: remove_comments_and_strings_def [of "remove_comments_and_strings t"]
            stripping_settled_text [OF b])
    with comments_gone [of t] show ?thesis by simp
  qed
  with comments_gone [of t] show ?thesis by blast
qed

theorem stripping_fixed_point_witness:
  "backslash \<in> set (''s = '' @ [dquote] @ ''a'' @ [backslash] @ ''n//b'' @ [dquote]
                       @ ''; // c /* d\<newline>e /* f */ g'')
   \<and> backslash \<notin> set (remove_strings
       (''s = '' @ [dquote] @ ''a'' @ [backslash] @ ''n//b'' @ [dquote]
          @ ''; // c /* d\<newline>e /* f */ g''))
   \<and> remove_comments_and_strings (remove_comments_and_strings
       (''s = '' @ [dquote] @ ''a'' @ [backslash] @ ''n//b'' @ [dquote]
          @ ''; // c /* d\<newline>e /* f */ g''))
     = remove_comments_and_strings
       (''s = '' @ [dquote] @ ''a'' @ [backslash] @ ''n//b'' @ [dquote]
          @ ''; // c /* d\<newline>e /* f */ g'')
   \<and> remove_comments_and_strings
       (''s = '' @ [dquote] @ ''a'' @ [backslash] @ ''n//b'' @ [dquote]
          @ ''; // c /* d\<newline>e /* f */ g'')
     = ''s = '' @ [dquote, dquote] @ ''; \<newline>e  g''"
proof -
  have i: "backslash \<in> set (''s = '' @ [dquote] @ ''a'' @ [backslash] @ ''n//b'' @ [dquote]
                       @ ''; // c /* d\<newline>e /* f */ g'')"
    by simp
  have a: "backslash \<notin> set (remove_strings
       (''s = '' @ [dquote] @ ''a'' @ [backslash] @ ''n//b'' @ [dquote]
          @ ''; // c /* d\<newline>e /* f */ g''))"
    by code_simp
  have v: "remove_comments_and_strings
       (''s = '' @ [dquote] @ ''a'' @ [backslash] @ ''n//b'' @ [dquote]
          @ ''; // c /* d\<newline>e /* f */ g'')
     = ''s = '' @ [dquote, dquote] @ ''; \<newline>e  g''"
    by code_simp
  from stripping_fixed_point
         [of "''s = '' @ [dquote] @ ''a'' @ [backslash] @ ''n//b'' @ [dquote]
                @ ''; // c /* d\<newline>e /* f */ g''"] a
  have f: "remove_comments_and_strings (remove_comments_and_strings
       (''s = '' @ [dquote] @ ''a'' @ [backslash] @ ''n//b'' @ [dquote]
          @ ''; // c /* d\<newline>e /* f */ g''))
     = remove_comments_and_strings
       (''s = '' @ [dquote] @ ''a'' @ [backslash] @ ''n//b'' @ [dquote]
          @ ''; // c /* d\<newline>e /* f */ g'')"
    by blast
  from i a f v show ?thesis by (intro conjI)
qed

text \<open>
  The removal of a comment can bring two quotes together that no literal joined before:
  stripping the output again then replaces what lies between them.
\<close>

theorem stripping_not_idempotent:
  "remove_comments_and_strings [dquote, CHR ''/'', CHR ''/'', backslash, newline, dquote]
     = [dquote, newline, dquote]
   \<and> remove_comments_and_strings
       (remove_comments_and_strings [dquote, CHR ''/'', CHR ''/'', backslash, newline, dquote])
     = [dquote, dquote]
   \<and> remove_comments_and_strings
       (remove_comments_and_strings [dquote, CHR ''/'', CHR ''/'', backslash, newline, dquote])
     \<noteq> remove_comments_and_strings [dquote, CHR ''/'', CHR ''/'', backslash, newline, dquote]"
proof -
  have a: "remove_comments_and_strings [dquote, CHR ''/'', CHR ''/'', backslash, newline, dquote]
     = [dquote, newline, dquote]"
    by code_simp
  have b: "remove_comments_and_strings
       (remove_comments_and_strings [dquote, CHR ''/'', CHR ''/'', backslash, newline, dquote])
     = [dquote, dquote]"
    by code_simp
  from a b have c: "remove_comments_and_strings
       (remove_comments_and_strings [dquote, CHR ''/'', CHR ''/'', backslash, newline, dquote])
     \<noteq> remove_comments_and_strings [dquote, CHR ''/'', CHR ''/'', backslash, newline, dquote]"
    by simp
  from a b c show ?thesis by (intro conjI)
qed

section \<open>Complexity and nesting of a concrete text\<close>

text \<open>
  Claim C7. On the text \<open>if (x) { if (y) { z(); } }\<close> the Complexity Counter returns 3,
  the base 1 plus two matches of the first pattern (\<open>if (\<close>) and no match of the eight
  others, and the Nesting Analyzer returns the maximum brace depth 2.
\<close>

theorem nested_if_complexity_and_depth:
  "calculate_cyclomatic_complexity ''if (x) { if (y) { z(); } }'' = 3
   \<and> map (\<lambda>pattern. length (re_findall flags_IM pattern
            (remove_comments_and_strings ''if (x) { if (y) { z(); } }''))) control_structures
       = [2, 0, 0, 0, 0, 0, 0, 0, 0]
   \<and> calculate_nesting_depth ''if (x) { if (y) { z(); } }'' = 2"
proof -
  have a: "calculate_cyclomatic_complexity ''if (x) { if (y) { z(); } }'' = 3"
    by code_simp
  have b: "map (\<lambda>pattern. length (re_findall flags_IM pattern
            (remove_comments_and_strings ''if (x) { if (y) { z(); } }''))) control_structures
       = [2, 0, 0, 0, 0, 0, 0, 0, 0]"
    by code_simp
  have c: "calculate_nesting_depth ''if (x) { if (y) { z(); } }'' = 2"
    by code_simp
  from a b c show ?thesis by blast
qed

section \<open>The line counts partition the lines\<close>

lemma classify_line_cases:
  "(loc (classify_line st raw), comments (classify_line st raw), blank (classify_line st raw))
     \<in> {(loc st + 1, comments st, blank st), (loc st, comments st + 1, blank st),
        (loc st, comments st, blank st + 1)}"
  by (simp add: classify_line_def Let_def)

lemma classify_line_sum:
  "loc (classify_line st raw) + comments (classify_line st raw) + blank (classify_line st raw)
     = loc st + comments st + blank st + 1"
  by (simp add: classify_line_def Let_def)

lemma foldl_classify_line_sum:
  "loc (foldl classify_line st ls) + comments (foldl classify_line st ls)
     + blank (foldl classify_line st ls)
   = loc st + comments st + blank st + int (length ls)"
  by (induction ls arbitrary: st) (simp_all add: classify_line_sum)

lemma readlines_Nil_iff: "readlines s = [] \<longleftrightarrow> s = []"
  by (cases s) (auto split: list.splits)

lemma length_readlines:
  "length (readlines s) =
     count_list s newline + (if s = [] \<or> last s = newline then 0 else 1)"
proof (induction s)
  case Nil
  then show ?case by simp
next
  case (Cons c cs)
  show ?case
  proof (cases "cs = []")
    case True
    then show ?thesis by simp
  next
    case False
    then obtain l ls where "readlines cs = l # ls"
      using readlines_Nil_iff [of cs] by (cases "readlines cs") auto
    with False Cons.IH show ?thesis by simp
  qed
qed

text \<open>
  Claim C2. For a file that can be read, the three counts of the Line Classifier add up to
  the number of physical lines of the file: the lines \<open>readlines\<close> returns, one per newline
  and one more for a last line without a newline. Every round of the loop adds one to
  exactly one of the three counts.
\<close>

theorem count_lines_partition:
  assumes "fs filepath = Some content"
  shows "(case count_lines fs filepath of
            (n_loc, n_comments, n_blank) \<Rightarrow>
              n_loc + n_comments + n_blank = int (length (readlines content)))
         \<and> length (readlines content) =
             count_list content newline + (if content = [] \<or> last content = newline then 0 else 1)
         \<and> (loc (classify_line st raw), comments (classify_line st raw), blank (classify_line st raw))
             \<in> {(loc st + 1, comments st, blank st), (loc st, comments st + 1, blank st),
                (loc st, comments st, blank st + 1)}"
  using assms foldl_classify_line_sum [of line_state0 "readlines content"]
    classify_line_cases [of st raw]
  by (simp add: count_lines_def Let_def length_readlines line_state0_def)

theorem count_lines_partition_witness:
  "(case count_lines (\<lambda>p. Some ''x = 1;\<newline>\<newline>// c'') ''main.ino'' of
            (n_loc, n_comments, n_blank) \<Rightarrow>
              n_loc + n_comments + n_blank = int (length (readlines ''x = 1;\<newline>\<newline>// c'')))
   \<and> count_lines (\<lambda>p. Some ''x = 1;\<newline>\<newline>// c'') ''main.ino'' = (1, 1, 1)
   \<and> length (readlines ''x = 1;\<newline>\<newline>// c'') = 3"
proof -
  have a: "(case count_lines (\<lambda>p. Some ''x = 1;\<newline>\<newline>// c'') ''main.ino'' of
            (n_loc, n_comments, n_blank) \<Rightarrow>
              n_loc + n_comments + n_blank = int (length (readlines ''x = 1;\<newline>\<newline>// c'')))"
    using count_lines_partition [of "\<lambda>p. Some ''x = 1;\<newline>\<newline>// c''" "''main.ino''"
        "''x = 1;\<newline>\<newline>// c''", OF refl]
    by (rule conjunct1)
  have b: "count_lines (\<lambda>p. Some ''x = 1;\<newline>\<newline>// c'') ''main.ino'' = (1, 1, 1)"
    by code_simp
  have c: "length (readlines ''x = 1;\<newline>\<newline>// c'') = 3"
    by code_simp
  from a b c show ?thesis by blast
qed

section \<open>Lines with a block-comment marker\<close>

lemma sublist_dropWhile_iff:
  assumes "m \<noteq> []" and "\<not> P (hd m)"
  shows "sublist m (dropWhile P l) \<longleftrightarrow> sublist m l"
proof (induction l)
  case Nil
  then show ?case by simp
next
  case (Cons x xs)
  show ?case
  proof (cases "P x")
    case True
    have "\<not> prefix m (x # xs)"
      using assms True by (cases m) auto
    with True Cons.IH show ?thesis by (simp add: sublist_Cons_right)
  next
    case False
    then show ?thesis by simp
  qed
qed

lemma sublist_strip:
  assumes "m \<noteq> []" and "\<not> is_space (hd m)" and "\<not> is_space (last m)"
  shows "sublist m (strip l) \<longleftrightarrow> sublist m l"
proof -
  have "sublist m (strip l) \<longleftrightarrow> sublist (rev m) (dropWhile is_space (rev (dropWhile is_space l)))"
    unfolding strip_def by (simp add: sublist_rev_right)
  also have "\<dots> \<longleftrightarrow> sublist (rev m) (rev (dropWhile is_space l))"
    using assms by (intro sublist_dropWhile_iff) (simp_all add: hd_rev)
  also have "\<dots> \<longleftrightarrow> sublist m (dropWhile is_space l)"
    by (rule sublist_rev)
  also have "\<dots> \<longleftrightarrow> sublist m l"
    using assms by (intro sublist_dropWhile_iff)
  finally show ?thesis .
qed

lemma open_marker_strip: "sublist ''/*'' (strip l) \<longleftrightarrow> sublist ''/*'' l"
  by (rule sublist_strip) (simp_all add: is_space_def)

lemma close_marker_strip: "sublist ''*/'' (strip l) \<longleftrightarrow> sublist ''*/'' l"
  by (rule sublist_strip) (simp_all add: is_space_def)

text \<open>
  Claim C9. A raw line that is not blank and contains the closing marker \<open>*/\<close> but no
  opening marker \<open>/*\<close> is counted as a comment line and clears the inside-block-comment
  flag, whatever the flag was: also when no block comment is open, so that a line of code
  with \<open>*/\<close> in it is counted as comment.
\<close>

theorem closing_marker_line_is_comment:
  assumes "strip raw \<noteq> []" and "sublist ''*/'' raw" and "\<not> sublist ''/*'' raw"
  shows "classify_line st raw = st\<lparr>in_multiline_comment := False, comments := comments st + 1\<rparr>"
  using assms by (simp add: classify_line_def Let_def open_marker_strip close_marker_strip)

theorem closing_marker_line_is_comment_witness:
  "strip ''x = a */ b;\<newline>'' \<noteq> [] \<and> sublist ''*/'' ''x = a */ b;\<newline>''
   \<and> \<not> sublist ''/*'' ''x = a */ b;\<newline>''
   \<and> classify_line \<lparr>loc = 0, comments = 0, blank = 0, in_multiline_comment = False\<rparr> ''x = a */ b;\<newline>''
       = \<lparr>loc = 0, comments = 1, blank = 0, in_multiline_comment = False\<rparr>"
proof -
  have a: "strip ''x = a */ b;\<newline>'' \<noteq> []" by code_simp
  have b: "sublist ''*/'' ''x = a */ b;\<newline>''" by code_simp
  have c: "\<not> sublist ''/*'' ''x = a */ b;\<newline>''" by code_simp
  from closing_marker_line_is_comment [OF a b c,
      of "\<lparr>loc = 0, comments = 0, blank = 0, in_multiline_comment = False\<rparr>"] a b c
  show ?thesis by simp
qed

text \<open>
  Claim C3, as the code has it. While the inside-block-comment flag is true, a line that
  is not blank and does not hold both markers is counted as a comment line whatever else
  it contains, and the flag stays true unless the line contains the closing marker \<open>*/\<close>,
  which clears it. A blank line is counted as blank. A line with both markers is counted
  as a comment line when the pattern of \<open>count_lines\<close> for a line that is one block
  comment matches the trimmed line, and as a line of code when it does not. Neither
  changes the flag.
\<close>

theorem line_inside_block_comment:
  assumes "in_multiline_comment st"
  shows "classify_line st raw =
    (if strip raw = [] then st\<lparr>blank := blank st + 1\<rparr>
     else if sublist ''/*'' raw \<and> sublist ''*/'' raw then
       (if re_match no_flags comment_only_line (strip raw) = None
        then st\<lparr>loc := loc st + 1\<rparr>
        else st\<lparr>comments := comments st + 1\<rparr>)
     else st\<lparr>in_multiline_comment := \<not> sublist ''*/'' raw, comments := comments st + 1\<rparr>)"
  using assms
  by (cases st) (simp add: classify_line_def Let_def open_marker_strip close_marker_strip)

theorem line_inside_block_comment_witness:
  "in_multiline_comment \<lparr>loc = 0, comments = 1, blank = 0, in_multiline_comment = True\<rparr>
   \<and> classify_line \<lparr>loc = 0, comments = 1, blank = 0, in_multiline_comment = True\<rparr>
         ''int x = 1;\<newline>''
       = \<lparr>loc = 0, comments = 2, blank = 0, in_multiline_comment = True\<rparr>
   \<and> classify_line \<lparr>loc = 0, comments = 1, blank = 0, in_multiline_comment = True\<rparr>
         ''/* a */ x = 1; /* b */\<newline>''
       = \<lparr>loc = 0, comments = 2, blank = 0, in_multiline_comment = True\<rparr>
   \<and> classify_line \<lparr>loc = 0, comments = 1, blank = 0, in_multiline_comment = True\<rparr>
         ''done */\<newline>''
       = \<lparr>loc = 0, comments = 2, blank = 0, in_multiline_comment = False\<rparr>"
proof -
  have a: "in_multiline_comment \<lparr>loc = 0, comments = 1, blank = 0, in_multiline_comment = True\<rparr>"
    by simp
  have b: "strip ''int x = 1;\<newline>'' \<noteq> []" by code_simp
  have c: "\<not> sublist ''/*'' ''int x = 1;\<newline>''" by code_simp
  have d: "\<not> sublist ''*/'' ''int x = 1;\<newline>''" by code_simp
  from line_inside_block_comment [OF a, of "''int x = 1;\<newline>''"] a b c d
  have e: "classify_line \<lparr>loc = 0, comments = 1, blank = 0, in_multiline_comment = True\<rparr>
         ''int x = 1;\<newline>''
       = \<lparr>loc = 0, comments = 2, blank = 0, in_multiline_comment = True\<rparr>"
    by simp
  have f: "classify_line \<lparr>loc = 0, comments = 1, blank = 0, in_multiline_comment = True\<rparr>
         ''/* a */ x = 1; /* b */\<newline>''
       = \<lparr>loc = 0, comments = 2, blank = 0, in_multiline_comment = True\<rparr>"
    by code_simp
  have g: "classify_line \<lparr>loc = 0, comments = 1, blank = 0, in_multiline_comment = True\<rparr>
         ''done */\<newline>''
       = \<lparr>loc = 0, comments = 2, blank = 0, in_multiline_comment = False\<rparr>"
    by code_simp
  from a e f g show ?thesis by (intro conjI)
qed

text \<open>
  Inside a block comment a blank line is counted as blank and a line of code that ends in
  a one-line comment as code: not every line there is a comment line.
\<close>

theorem block_comment_lines_not_all_comment:
  "in_multiline_comment (classify_line line_state0 ''/*\<newline>'')
   \<and> classify_line (classify_line line_state0 ''/*\<newline>'') ''\<newline>''
       = \<lparr>loc = 0, comments = 1, blank = 1, in_multiline_comment = True\<rparr>
   \<and> classify_line (classify_line line_state0 ''/*\<newline>'') ''x = 1; /* a */\<newline>''
       = \<lparr>loc = 1, comments = 1, blank = 0, in_multiline_comment = True\<rparr>
   \<and> count_lines (\<lambda>p. Some ''/*\<newline>\<newline>*/\<newline>'') ''f.ino'' = (0, 2, 1)"
proof -
  have a: "in_multiline_comment (classify_line line_state0 ''/*\<newline>'')" by code_simp
  have b: "classify_line (classify_line line_state0 ''/*\<newline>'') ''\<newline>''
       = \<lparr>loc = 0, comments = 1, blank = 1, in_multiline_comment = True\<rparr>" by code_simp
  have c: "classify_line (classify_line line_state0 ''/*\<newline>'') ''x = 1; /* a */\<newline>''
       = \<lparr>loc = 1, comments = 1, blank = 0, in_multiline_comment = True\<rparr>" by code_simp
  have d: "count_lines (\<lambda>p. Some ''/*\<newline>\<newline>*/\<newline>'') ''f.ino'' = (0, 2, 1)" by code_simp
  from a b c d show ?thesis by blast
qed

section \<open>A file that cannot be read\<close>

lemma files_metrics_analyze_project:
  "files_metrics (analyze_project round2 fs files) = map (analyze_file round2 fs) files"
  by (simp add: analyze_project_def Let_def)

text \<open>
  Claim C8. When the file cannot be read, \<open>analyze_file\<close> returns the metrics record of
  that file with every number 0, and the project analysis goes on: it holds the records of
  the files before and after it.
\<close>

theorem read_failure_gives_zero_metrics:
  assumes "fs filepath = None"
  shows "analyze_file round2 fs filepath =
           \<lparr>filename = basename filepath, lines_of_code = 0, lines_of_comments = 0,
            blank_lines = 0, cyclomatic_complexity = 0, functions_count = 0,
            max_function_complexity = 0, average_function_complexity = 0, nested_depth = 0\<rparr>
         \<and> files_metrics (analyze_project round2 fs (before @ filepath # after)) =
             map (analyze_file round2 fs) before @
             analyze_file round2 fs filepath # map (analyze_file round2 fs) after"
  using assms by (simp add: analyze_file_def files_metrics_analyze_project)

theorem read_failure_gives_zero_metrics_witness:
  "(\<lambda>p. if p = ''src/main.cpp'' then Some ''int x;\<newline>'' else None) ''lib/missing.h'' = None
   \<and> analyze_file (\<lambda>q. q)
         (\<lambda>p. if p = ''src/main.cpp'' then Some ''int x;\<newline>'' else None) ''lib/missing.h''
       = \<lparr>filename = ''missing.h'', lines_of_code = 0, lines_of_comments = 0,
          blank_lines = 0, cyclomatic_complexity = 0, functions_count = 0,
          max_function_complexity = 0, average_function_complexity = 0, nested_depth = 0\<rparr>"
proof -
  have h: "(\<lambda>p. if p = ''src/main.cpp'' then Some ''int x;\<newline>'' else None) ''lib/missing.h'' = None"
    by simp
  have b: "basename ''lib/missing.h'' = ''missing.h''"
    by code_simp
  from read_failure_gives_zero_metrics
         [of "\<lambda>p. if p = ''src/main.cpp'' then Some ''int x;\<newline>'' else None" "''lib/missing.h''"
            "\<lambda>q. q" "[]" "[]"] h b
  show ?thesis by simp
qed

section \<open>The complexity distribution of a project\<close>

lemma foldl_add_ge: "a \<le> foldl (\<lambda>c p. c + int (f p)) a ps"
proof (induction ps arbitrary: a)
  case Nil
  then show ?case by simp
next
  case (Cons p ps)
  have "a \<le> a + int (f p)" by simp
  also have "\<dots> \<le> foldl (\<lambda>c p. c + int (f p)) (a + int (f p)) ps" by (rule Cons.IH)
  finally show ?case by simp
qed

lemma complexity_ge_1: "1 \<le> calculate_cyclomatic_complexity content"
  unfolding calculate_cyclomatic_complexity_def by (rule foldl_add_ge)

lemma analyze_file_complexity:
  "cyclomatic_complexity (analyze_file round2 fs p) =
     (case fs p of None \<Rightarrow> 0 | Some content \<Rightarrow> calculate_cyclomatic_complexity content)"
  by (simp add: analyze_file_def Let_def split: option.splits prod.splits)

lemma complexities_readable:
  "complexities (map (analyze_file round2 fs) files) =
     map (\<lambda>p. cyclomatic_complexity (analyze_file round2 fs p)) (filter (\<lambda>p. fs p \<noteq> None) files)"
proof (induction files)
  case Nil
  then show ?case by (simp add: complexities_def)
next
  case (Cons p ps)
  have "0 < cyclomatic_complexity (analyze_file round2 fs p) \<longleftrightarrow> fs p \<noteq> None"
    using complexity_ge_1 by (auto simp: analyze_file_complexity split: option.splits intro: less_le_trans [OF zero_less_one])
  with Cons show ?case by (simp add: complexities_def)
qed

text \<open>
  Claim C4, as the code has it. The average and the maximum of a project are computed over
  the file records whose complexity is above 0, and these are the records of the files
  that could be read: a file that cannot be read has complexity 0 and is left out, a file
  that can be read has complexity 1 at least, whatever it contains, and enters the
  distribution. Every analyzed file counts in \<open>total_files\<close>.
\<close>

theorem project_complexity_over_readable_files:
  assumes "files \<noteq> []"
  shows "complexities (map (analyze_file round2 fs) files) =
           map (\<lambda>p. cyclomatic_complexity (analyze_file round2 fs p))
             (filter (\<lambda>p. fs p \<noteq> None) files)
     \<and> max_complexity (analyze_project round2 fs files) =
           (if complexities (map (analyze_file round2 fs) files) = [] then 0
            else Max (set (complexities (map (analyze_file round2 fs) files))))
     \<and> average_complexity (analyze_project round2 fs files) =
           round2 (if complexities (map (analyze_file round2 fs) files) = [] then 0
                   else mean (complexities (map (analyze_file round2 fs) files)))
     \<and> total_files (analyze_project round2 fs files) = int (length files)
     \<and> (case fs p of
          None \<Rightarrow> cyclomatic_complexity (analyze_file round2 fs p) = 0
        | Some content \<Rightarrow> 1 \<le> cyclomatic_complexity (analyze_file round2 fs p))"
proof -
  have c: "complexities (map (analyze_file round2 fs) files) =
           map (\<lambda>p. cyclomatic_complexity (analyze_file round2 fs p))
             (filter (\<lambda>p. fs p \<noteq> None) files)"
    by (rule complexities_readable)
  have m: "max_complexity (analyze_project round2 fs files) =
           (if complexities (map (analyze_file round2 fs) files) = [] then 0
            else Max (set (complexities (map (analyze_file round2 fs) files))))"
    using assms by (simp add: analyze_project_def Let_def)
  have a: "average_complexity (analyze_project round2 fs files) =
           round2 (if complexities (map (analyze_file round2 fs) files) = [] then 0
                   else mean (complexities (map (analyze_file round2 fs) files)))"
    using assms by (simp add: analyze_project_def Let_def)
  have t: "total_files (analyze_project round2 fs files) = int (length files)"
    by (simp add: analyze_project_def Let_def)
  have r: "(case fs p of
          None \<Rightarrow> cyclomatic_complexity (analyze_file round2 fs p) = 0
        | Some content \<Rightarrow> 1 \<le> cyclomatic_complexity (analyze_file round2 fs p))"
    using complexity_ge_1 by (simp add: analyze_file_complexity split: option.splits)
  from c m a t r show ?thesis by blast
qed

theorem project_complexity_over_readable_files_witness:
  "[''a.ino'', ''b.ino''] \<noteq> []
   \<and> complexities (map (analyze_file (\<lambda>q. q)
         (\<lambda>p. if p = ''a.ino'' then Some ''if (x) { y(); }'' else None)) [''a.ino'', ''b.ino'']) = [2]
   \<and> max_complexity (analyze_project (\<lambda>q. q)
         (\<lambda>p. if p = ''a.ino'' then Some ''if (x) { y(); }'' else None) [''a.ino'', ''b.ino'']) = 2
   \<and> total_files (analyze_project (\<lambda>q. q)
         (\<lambda>p. if p = ''a.ino'' then Some ''if (x) { y(); }'' else None) [''a.ino'', ''b.ino'']) = 2"
proof -
  have n: "[''a.ino'', ''b.ino''] \<noteq> []" by simp
  have e: "map (\<lambda>p. cyclomatic_complexity (analyze_file (\<lambda>q. q)
                (\<lambda>p. if p = ''a.ino'' then Some ''if (x) { y(); }'' else None) p))
             (filter (\<lambda>p. (if p = ''a.ino'' then Some ''if (x) { y(); }'' else None) \<noteq> None)
                [''a.ino'', ''b.ino'']) = [2]"
    by code_simp
  from project_complexity_over_readable_files
         [of "[''a.ino'', ''b.ino'']" "\<lambda>q. q"
            "\<lambda>p. if p = ''a.ino'' then Some ''if (x) { y(); }'' else None", OF n]
       e n
  show ?thesis by simp
qed

text \<open>
  An empty file that can be read has complexity 1 and enters the distribution: it is the
  only file of this project, and the maximum and the average are 1.
\<close>

theorem empty_file_enters_complexity_distribution:
  "cyclomatic_complexity (analyze_file (\<lambda>q. q) (\<lambda>p. Some []) ''empty.ino'') = 1
   \<and> complexities (map (analyze_file (\<lambda>q. q) (\<lambda>p. Some [])) [''empty.ino'']) = [1]
   \<and> max_complexity (analyze_project (\<lambda>q. q) (\<lambda>p. Some []) [''empty.ino'']) = 1
   \<and> average_complexity (analyze_project (\<lambda>q. q) (\<lambda>p. Some []) [''empty.ino'']) = 1"
proof -
  have a: "cyclomatic_complexity (analyze_file (\<lambda>q. q) (\<lambda>p. Some []) ''empty.ino'') = 1"
    by code_simp
  have b: "complexities (map (analyze_file (\<lambda>q. q) (\<lambda>p. Some [])) [''empty.ino'']) = [1]"
    by code_simp
  have c: "max_complexity (analyze_project (\<lambda>q. q) (\<lambda>p. Some []) [''empty.ino'']) = 1"
    by code_simp
  have d: "average_complexity (analyze_project (\<lambda>q. q) (\<lambda>p. Some []) [''empty.ino'']) = 1"
    by code_simp
  from a b c d show ?thesis by blast
qed

section \<open>A function on one line\<close>

text \<open>
  A function is recorded on a line after its header, with the header and that line in its
  body: no record has fewer than two lines.
\<close>

lemma find_functions_step_lines:
  assumes "current_function st \<noteq> None \<longrightarrow> function_content st \<noteq> []"
    and "\<forall>r \<in> set (found_functions st). 2 \<le> snd (snd r)"
  shows "(current_function (find_functions_step st line) \<noteq> None
            \<longrightarrow> function_content (find_functions_step st line) \<noteq> [])
         \<and> (\<forall>r \<in> set (found_functions (find_functions_step st line)). 2 \<le> snd (snd r))"
  using assms
  by (cases "function_content st")
     (auto simp: find_functions_step_def Let_def split: option.splits)

lemma foldl_find_functions_step_lines:
  assumes "current_function st \<noteq> None \<longrightarrow> function_content st \<noteq> []"
    and "\<forall>r \<in> set (found_functions st). 2 \<le> snd (snd r)"
  shows "\<forall>r \<in> set (found_functions (foldl find_functions_step st ls)). 2 \<le> snd (snd r)"
  using assms
proof (induction ls arbitrary: st)
  case Nil
  then show ?case by simp
next
  case (Cons l ls)
  from find_functions_step_lines [OF Cons.prems, of l] Cons.IH [of "find_functions_step st l"]
  show ?case by simp
qed

lemma recorded_function_has_two_lines:
  "(name, complexity, n) \<in> set (find_functions content) \<Longrightarrow> 2 \<le> n"
  using foldl_find_functions_step_lines
    [of ff_state0 "split_lines (remove_comments_and_strings content)"]
  by (auto simp: find_functions_def ff_state0_def)

text \<open>
  Claim C1. On the text that is the one line \<open>int add(int a, int b) { return a + b; }\<close>
  the Function Extractor should return one record, \<open>add\<close> with complexity 1 and one line.
  The code returns none: the header line matches and opens the function \<open>add\<close>, but the
  end of a function is looked for on the lines after the header only. With a newline after
  the line the function is recorded with two lines.
\<close>

theorem one_line_function_not_recorded:
  "find_functions ''int add(int a, int b) { return a + b; }'' = []
   \<and> map_option (\<lambda>m. group m 1)
         (re_search no_flags function_pattern ''int add(int a, int b) { return a + b; }'')
       = Some (Some ''add'')
   \<and> find_functions ''int add(int a, int b) { return a + b; }\<newline>'' = [(''add'', 1, 2)]"
proof -
  have a: "find_functions ''int add(int a, int b) { return a + b; }'' = []"
    by code_simp
  have b: "map_option (\<lambda>m. group m 1)
         (re_search no_flags function_pattern ''int add(int a, int b) { return a + b; }'')
       = Some (Some ''add'')"
    by code_simp
  have c: "find_functions ''int add(int a, int b) { return a + b; }\<newline>'' = [(''add'', 1, 2)]"
    by code_simp
  from a b c show ?thesis by blast
qed

end
